theory Spec2Isabelle
  imports Complex_Main "HOL-Library.Word"
begin

unbundle bit_operations_syntax

section \<open>Machine types\<close>

text \<open>
  Frame buffers are arrays of \<open>uint8_t\<close>; a \<open>jbyte\<close> is the same byte read signed.
  The statistics counters are \<open>uint64_t\<close>, clock readings and elapsed times \<open>int64_t\<close>
  (two's complement, read with \<open>sint\<close>). Dimensions are C \<open>int\<close> (\<open>jint\<close>): they are
  kept as mathematical integers and the wrap-around of a 32-bit result is written out with
  \<open>int32\<close> where a size is computed (\<open>width * height\<close>, \<open>width * height * 4\<close>). The
  index arithmetic inside the loops is left unwrapped: for a frame that fits, every index
  stays below such a size.
\<close>

type_synonym u8 = "8 word"
type_synonym u64 = "64 word"
type_synonym i64 = "64 word"

definition INT_MAX :: int where
  "INT_MAX = 2147483647"

definition int32 :: "int \<Rightarrow> int" where
  "int32 k = signed_take_bit 31 k"

definition to_size_t :: "int \<Rightarrow> nat" where
  "to_size_t k = nat (take_bit 64 k)"

text \<open>
  \<open>std::memcpy\<close> and \<open>std::memset\<close> on a buffer held as a list. The C++ is undefined
  when \<open>n\<close> exceeds a buffer; every theorem about buffer contents below assumes that the
  buffers hold the frame.
\<close>

definition memcpy :: "u8 list \<Rightarrow> u8 list \<Rightarrow> nat \<Rightarrow> u8 list" where
  "memcpy dst src n = take n src @ drop n dst"

definition memset :: "u8 list \<Rightarrow> u8 \<Rightarrow> nat \<Rightarrow> u8 list" where
  "memset dst v n = replicate n v @ drop n dst"

section \<open>Single-precision arithmetic\<close>

text \<open>
  \<open>rgbaToGray\<close> evaluates \<open>0.299f * r + 0.587f * g + 0.114f * b\<close> in IEEE 754 binary32.
  A binary32 value is held as the rational it denotes; \<open>f32_round\<close> rounds a non-negative
  rational below \<open>2^128\<close> to the nearest binary32 value, ties to even: the exponent \<open>e\<close> is
  the largest one in \<open>-126..127\<close> with \<open>2^e \<le> q\<close> (\<open>-126\<close> for subnormals and zero), and
  \<open>q\<close> is rounded to a multiple of \<open>2^(e - 23)\<close>.
\<close>

definition round_even :: "rat \<Rightarrow> int" where
  "round_even q = (let f = \<lfloor>q\<rfloor>; r = q - of_int f in
     if r < 1 / 2 then f else if 1 / 2 < r then f + 1 else if even f then f else f + 1)"

fun f32_find_exp :: "nat \<Rightarrow> rat \<Rightarrow> int" where
  "f32_find_exp 0 q = - 126"
| "f32_find_exp (Suc n) q =
     (if 2 powi (int (Suc n) - 126) \<le> q then int (Suc n) - 126 else f32_find_exp n q)"

definition f32_exponent :: "rat \<Rightarrow> int" where
  "f32_exponent q = f32_find_exp 253 q"

definition f32_round :: "rat \<Rightarrow> rat" where
  "f32_round q = (let ulp = 2 powi (f32_exponent q - 23) in of_int (round_even (q / ulp)) * ulp)"

definition f32_mul :: "rat \<Rightarrow> rat \<Rightarrow> rat" where
  "f32_mul a b = f32_round (a * b)"

definition f32_add :: "rat \<Rightarrow> rat \<Rightarrow> rat" where
  "f32_add a b = f32_round (a + b)"

text \<open>The literals \<open>0.299f\<close>, \<open>0.587f\<close>, \<open>0.114f\<close>: the decimals rounded to binary32.\<close>

definition lit_0_299f :: rat where
  "lit_0_299f = f32_round (299 / 1000)"

definition lit_0_587f :: rat where
  "lit_0_587f = f32_round (587 / 1000)"

definition lit_0_114f :: rat where
  "lit_0_114f = f32_round (114 / 1000)"

text \<open>
  \<open>getStatistics\<close> divides in \<open>double\<close>. \<open>f64_round\<close> is the same rounding for IEEE 754
  binary64: exponents \<open>-1022..1023\<close> and multiples of \<open>2^(e - 52)\<close>, for a non-negative
  rational below \<open>2^1024\<close>.
\<close>

fun f64_find_exp :: "nat \<Rightarrow> rat \<Rightarrow> int" where
  "f64_find_exp 0 q = - 1022"
| "f64_find_exp (Suc n) q =
     (if 2 powi (int (Suc n) - 1022) \<le> q then int (Suc n) - 1022 else f64_find_exp n q)"

definition f64_exponent :: "rat \<Rightarrow> int" where
  "f64_exponent q = f64_find_exp 2045 q"

definition f64_round :: "rat \<Rightarrow> rat" where
  "f64_round q = (let ulp = 2 powi (f64_exponent q - 52) in of_int (round_even (q / ulp)) * ulp)"

definition f64_div :: "rat \<Rightarrow> rat \<Rightarrow> rat" where
  "f64_div a b = f64_round (a / b)"

text \<open>
  \<open>static_cast<double>\<close> of a \<open>uint64_t\<close> (also the implicit conversion of the divisor),
  and the number that \<open>%.2f\<close> prints for a non-negative \<open>double\<close>: its exact value rounded
  to hundredths, ties to even.
\<close>

definition u64_to_double :: "u64 \<Rightarrow> rat" where
  "u64_to_double w = f64_round (of_nat (unat w))"

definition printf_2f :: "rat \<Rightarrow> rat" where
  "printf_2f d = of_int (round_even (d * 100)) / 100"

section \<open>ImageUtils\<close>

text \<open>
  \<open>rgbaToGray\<close>: the bytes are converted to \<open>float\<close> exactly, the sum is evaluated left
  to right with every product and every sum rounded on its own (no multiplication is fused
  with an addition), and \<open>static_cast<uint8_t>\<close> truncates the non-negative result.
\<close>

definition rgbaToGray :: "u8 \<Rightarrow> u8 \<Rightarrow> u8 \<Rightarrow> u8" where
  "rgbaToGray r g b =
     word_of_int \<lfloor>f32_add (f32_add (f32_mul lit_0_299f (of_int (uint r)))
                                      (f32_mul lit_0_587f (of_int (uint g))))
                             (f32_mul lit_0_114f (of_int (uint b)))\<rfloor>"

text \<open>
  \<open>static_cast<int>(std::sqrt(n))\<close> for an \<open>int\<close> \<open>n\<close>: the argument is converted to
  \<open>double\<close> exactly, IEEE 754 \<open>sqrt\<close> is correctly rounded, and for \<open>0 \<le> n < 2^52\<close>
  truncating the rounded root gives the integer square root. \<open>sqrt_search r n\<close> counts
  up from \<open>r\<close> while the next square still fits.
\<close>

function sqrt_search :: "nat \<Rightarrow> nat \<Rightarrow> nat" where
  "sqrt_search r n = (if (r + 1) * (r + 1) \<le> n then sqrt_search (r + 1) n else r)"
  by pat_completeness auto
termination
  by (relation "measure (\<lambda>(r, n). n - r)") (auto simp: algebra_simps)

declare sqrt_search.simps [simp del]

definition sqrt_to_int :: "int \<Rightarrow> int" where
  "sqrt_to_int n = int (sqrt_search 0 (nat n))"

definition sobelX :: "int list list" where
  "sobelX = [[- 1, 0, 1], [- 2, 0, 2], [- 1, 0, 1]]"

definition sobelY :: "int list list" where
  "sobelY = [[- 1, - 2, - 1], [0, 0, 0], [1, 2, 1]]"

text \<open>The two inner loops over \<open>ky\<close> and \<open>kx\<close>: the pair \<open>(gx, gy)\<close> at pixel \<open>(x, y)\<close>.\<close>

definition sobel_convolve :: "u8 list \<Rightarrow> int \<Rightarrow> int \<Rightarrow> int \<Rightarrow> int \<times> int" where
  "sobel_convolve grayscale width x y =
     fold (\<lambda>ky. fold (\<lambda>kx (gx, gy).
         let pixel = uint (grayscale ! nat ((y + ky) * width + (x + kx)))
         in (gx + pixel * sobelX ! nat (ky + 1) ! nat (kx + 1),
             gy + pixel * sobelY ! nat (ky + 1) ! nat (kx + 1)))
       [- 1, 0, 1]) [- 1, 0, 1] (0, 0)"

definition sobel_magnitude :: "int \<times> int \<Rightarrow> int" where
  "sobel_magnitude g = (case g of (gx, gy) \<Rightarrow> min 255 (sqrt_to_int (gx * gx + gy * gy)))"

text \<open>The Sobel loops over \<open>y\<close> in \<open>1..height-2\<close> and \<open>x\<close> in \<open>1..width-2\<close>.\<close>

definition sobel_loop :: "u8 list \<Rightarrow> int \<Rightarrow> int \<Rightarrow> u8 list \<Rightarrow> u8 list" where
  "sobel_loop grayscale width height output =
     fold (\<lambda>y. fold (\<lambda>x out.
         let magnitude = sobel_magnitude (sobel_convolve grayscale width x y)
         in out[nat (y * width + x) := word_of_int magnitude])
       [1..width - 2]) [1..height - 2] output"

text \<open>The threshold loop of \<open>simpleEdgeDetection\<close>, with \<open>threshold = 50\<close>.\<close>

definition threshold_loop :: "nat \<Rightarrow> u8 list \<Rightarrow> u8 list" where
  "threshold_loop n output =
     fold (\<lambda>i out. out[i := (if 50 < out ! i then 255 else 0)]) [0..<n] output"

definition simpleEdgeDetection :: "u8 list \<Rightarrow> int \<Rightarrow> int \<Rightarrow> u8 list \<Rightarrow> u8 list" where
  "simpleEdgeDetection grayscale width height output =
     threshold_loop (nat (int32 (width * height)))
       (sobel_loop grayscale width height
          (memset output 0 (to_size_t (int32 (width * height)))))"

definition applyThreshold :: "u8 list \<Rightarrow> int \<Rightarrow> int \<Rightarrow> u8 \<Rightarrow> u8 list \<Rightarrow> u8 list" where
  "applyThreshold input width height threshold output =
     fold (\<lambda>i out. out[i := (if threshold < input ! i then 255 else 0)])
       [0..<nat (int32 (width * height))] output"

section \<open>OpenCVProcessor\<close>

record ProcessingMetrics =
  processingTimeMs :: i64
  metricsWidth :: int
  metricsHeight :: int
  metricsMode :: int
  success :: bool

record OpenCVProcessor =
  mInitialized :: bool
  mOpenCVAvailable :: bool
  mCannyLowThreshold :: real
  mCannyHighThreshold :: real
  mCannyApertureSize :: int
  mTotalFramesProcessed :: u64
  mTotalProcessingTimeMs :: u64
  mLastProcessingTimeMs :: i64

text \<open>
  The OpenCV library is not part of the repository. It is a parameter: whether the build
  defines \<open>HAVE_OPENCV\<close>, what \<open>Mat::zeros(2, 2, CV_8UC1).empty()\<close> gives in \<open>initialize\<close>
  (\<open>None\<close>: it throws), and the two pipelines on a frame (\<open>cvtColor\<close>, \<open>GaussianBlur\<close>,
  \<open>Canny\<close> with the thresholds and aperture; \<open>cvtColor\<close> alone), each giving the
  single-channel matrix of \<open>height * width\<close> bytes, or \<open>None\<close> when it throws.
\<close>

record opencv =
  HAVE_OPENCV :: bool
  testMatEmpty :: "bool option"
  cvCanny :: "u8 list \<Rightarrow> int \<Rightarrow> int \<Rightarrow> real \<Rightarrow> real \<Rightarrow> int \<Rightarrow> u8 list option"
  cvGray :: "u8 list \<Rightarrow> int \<Rightarrow> int \<Rightarrow> u8 list option"

definition OpenCVProcessor_new :: OpenCVProcessor where
  "OpenCVProcessor_new =
     \<lparr>mInitialized = False, mOpenCVAvailable = False,
      mCannyLowThreshold = 50, mCannyHighThreshold = 150, mCannyApertureSize = 3,
      mTotalFramesProcessed = 0, mTotalProcessingTimeMs = 0, mLastProcessingTimeMs = 0\<rparr>"

definition initialize :: "opencv \<Rightarrow> OpenCVProcessor \<Rightarrow> bool \<times> OpenCVProcessor" where
  "initialize cv p =
     (if mInitialized p then (True, p)
      else
        let available =
              (if HAVE_OPENCV cv
               then (case testMatEmpty cv of
                       Some isEmpty \<Rightarrow> (if isEmpty then False else True)
                     | None \<Rightarrow> False)
               else False)
        in (True, p\<lparr>mOpenCVAvailable := available, mInitialized := True\<rparr>))"

definition isOpenCVAvailable :: "OpenCVProcessor \<Rightarrow> bool" where
  "isOpenCVAvailable p = mOpenCVAvailable p"

definition copyRawFrame :: "u8 list \<Rightarrow> int \<Rightarrow> int \<Rightarrow> u8 list \<Rightarrow> bool \<times> u8 list" where
  "copyRawFrame inputData width height outputData =
     (let dataSize = to_size_t (int32 (width * height * 4))
      in (True, memcpy outputData inputData dataSize))"

definition setCannyThresholds :: "real \<Rightarrow> real \<Rightarrow> OpenCVProcessor \<Rightarrow> OpenCVProcessor" where
  "setCannyThresholds lowThreshold highThreshold p =
     p\<lparr>mCannyLowThreshold := lowThreshold, mCannyHighThreshold := highThreshold\<rparr>"

text \<open>
  \<open>getStatistics\<close> formats four values into a string; the model returns the four values
  as the string shows them. The average is computed in \<open>double\<close> from the two counters and
  printed with \<open>%.2f\<close>: \<open>statAvgTime\<close> is the decimal number that appears in the string.
\<close>

record Statistics =
  statFrames :: nat
  statAvgTime :: rat
  statLastTime :: int
  statOpenCV :: string

definition getStatistics :: "OpenCVProcessor \<Rightarrow> Statistics" where
  "getStatistics p =
     (let avgTime =
            (if 0 < mTotalFramesProcessed p
             then f64_div (u64_to_double (mTotalProcessingTimeMs p))
                    (u64_to_double (mTotalFramesProcessed p))
             else 0)
      in \<lparr>statFrames = unat (mTotalFramesProcessed p),
          statAvgTime = printf_2f avgTime,
          statLastTime = sint (mLastProcessingTimeMs p),
          statOpenCV = (if mOpenCVAvailable p then ''Yes'' else ''No'')\<rparr>)"

definition release :: "OpenCVProcessor \<Rightarrow> OpenCVProcessor" where
  "release p = (if mInitialized p then p\<lparr>mInitialized := False\<rparr> else p)"

definition updateStatistics :: "i64 \<Rightarrow> OpenCVProcessor \<Rightarrow> OpenCVProcessor" where
  "updateStatistics t p =
     p\<lparr>mTotalFramesProcessed := mTotalFramesProcessed p + 1,
       mTotalProcessingTimeMs := mTotalProcessingTimeMs p + t,
       mLastProcessingTimeMs := t\<rparr>"

text \<open>The pixel loop shared in shape by both fallbacks: one value into R, G, B and 255 into A.\<close>

definition write_pixel :: "nat \<Rightarrow> u8 \<Rightarrow> u8 list \<Rightarrow> u8 list" where
  "write_pixel idx v outputData =
     outputData[idx := v, idx + 1 := v, idx + 2 := v, idx + 3 := 255]"

definition convertToGrayscaleFallback ::
    "u8 list \<Rightarrow> int \<Rightarrow> int \<Rightarrow> u8 list \<Rightarrow> bool \<times> u8 list" where
  "convertToGrayscaleFallback inputData width height outputData =
     (True,
      fold (\<lambda>i out.
          let idx = i * 4;
              gray = rgbaToGray (inputData ! idx) (inputData ! (idx + 1)) (inputData ! (idx + 2))
          in write_pixel idx gray out)
        [0..<nat (int32 (width * height))] outputData)"

text \<open>
  \<open>new uint8_t[n]\<close> gives \<open>n\<close> bytes of indeterminate value. What the two allocations of
  \<open>applyCannyEdgeFallback\<close> hold at each index when they are handed out is a parameter.
\<close>

record fresh_memory =
  freshGray :: "nat \<Rightarrow> u8"
  freshEdge :: "nat \<Rightarrow> u8"

definition new_array :: "(nat \<Rightarrow> u8) \<Rightarrow> nat \<Rightarrow> u8 list" where
  "new_array content n = map content [0..<n]"

text \<open>
  \<open>applyCannyEdgeFallback\<close> has three parts: the loop that fills \<open>grayData\<close>, the call
  of \<open>simpleEdgeDetection\<close>, and the loop that expands \<open>edgeData\<close> to RGBA.
\<close>

definition gray_loop :: "u8 list \<Rightarrow> nat \<Rightarrow> u8 list \<Rightarrow> u8 list" where
  "gray_loop inputData n grayData =
     fold (\<lambda>i gd.
         let idx = i * 4
         in gd[i := rgbaToGray (inputData ! idx) (inputData ! (idx + 1)) (inputData ! (idx + 2))])
       [0..<n] grayData"

definition edge_to_rgba_loop :: "u8 list \<Rightarrow> nat \<Rightarrow> u8 list \<Rightarrow> u8 list" where
  "edge_to_rgba_loop edgeData n outputData =
     fold (\<lambda>i out.
         let idx = i * 4;
             edgeValue = edgeData ! i
         in write_pixel idx edgeValue out)
       [0..<n] outputData"

definition applyCannyEdgeFallback ::
    "fresh_memory \<Rightarrow> u8 list \<Rightarrow> int \<Rightarrow> int \<Rightarrow> u8 list \<Rightarrow> bool \<times> u8 list" where
  "applyCannyEdgeFallback mem inputData width height outputData =
     (let n = nat (int32 (width * height));
          grayData = gray_loop inputData n (new_array (freshGray mem) n);
          edgeData = simpleEdgeDetection grayData width height (new_array (freshEdge mem) n)
      in (True, edge_to_rgba_loop edgeData n outputData))"

text \<open>
  The accelerated paths copy the single-channel result \<open>m\<close> into an RGBA matrix
  (\<open>Vec4b(v, v, v, 255)\<close> at every \<open>(y, x)\<close>) and \<open>memcpy\<close> it to the output.
\<close>

definition mat_to_rgba :: "u8 list \<Rightarrow> int \<Rightarrow> int \<Rightarrow> u8 list" where
  "mat_to_rgba m width height =
     concat (map (\<lambda>y. concat (map (\<lambda>x.
         let v = m ! nat (y * width + x) in [v, v, v, 255]) [0..width - 1])) [0..height - 1])"

definition applyCannyEdge ::
    "opencv \<Rightarrow> fresh_memory \<Rightarrow> OpenCVProcessor \<Rightarrow> u8 list \<Rightarrow> int \<Rightarrow> int \<Rightarrow> u8 list
      \<Rightarrow> bool \<times> u8 list" where
  "applyCannyEdge cv mem p inputData width height outputData =
     (if HAVE_OPENCV cv \<and> mOpenCVAvailable p
      then (case cvCanny cv inputData width height (mCannyLowThreshold p)
                   (mCannyHighThreshold p) (mCannyApertureSize p) of
              Some edgesMat \<Rightarrow>
                (True, memcpy outputData (mat_to_rgba edgesMat width height)
                         (to_size_t (int32 (width * height * 4))))
            | None \<Rightarrow> applyCannyEdgeFallback mem inputData width height outputData)
      else applyCannyEdgeFallback mem inputData width height outputData)"

definition convertToGrayscale ::
    "opencv \<Rightarrow> OpenCVProcessor \<Rightarrow> u8 list \<Rightarrow> int \<Rightarrow> int \<Rightarrow> u8 list \<Rightarrow> bool \<times> u8 list" where
  "convertToGrayscale cv p inputData width height outputData =
     (if HAVE_OPENCV cv \<and> mOpenCVAvailable p
      then (case cvGray cv inputData width height of
              Some grayMat \<Rightarrow>
                (True, memcpy outputData (mat_to_rgba grayMat width height)
                         (to_size_t (int32 (width * height * 4))))
            | None \<Rightarrow> convertToGrayscaleFallback inputData width height outputData)
      else convertToGrayscaleFallback inputData width height outputData)"

text \<open>
  \<open>processFrame\<close>. A buffer pointer is \<open>None\<close> when it is \<open>nullptr\<close>. The two readings of
  \<open>getCurrentTimeMs\<close> (the steady clock) are the parameters \<open>startTime\<close> and \<open>endTime\<close>;
  \<open>mem\<close> is the content of the memory that the fallback edge detector allocates.
  The result is the metrics, the output buffer after the call and the processor after it.
\<close>

definition MODE_RAW :: int where "MODE_RAW = 0"
definition MODE_EDGE :: int where "MODE_EDGE = 1"
definition MODE_GRAYSCALE :: int where "MODE_GRAYSCALE = 2"

definition processFrame ::
    "opencv \<Rightarrow> fresh_memory \<Rightarrow> OpenCVProcessor \<Rightarrow> u8 list option \<Rightarrow> int \<Rightarrow> int \<Rightarrow> int \<Rightarrow> u8 list option
      \<Rightarrow> i64 \<Rightarrow> i64 \<Rightarrow> ProcessingMetrics \<times> u8 list option \<times> OpenCVProcessor" where
  "processFrame cv mem p inputData width height mode outputData startTime endTime =
     (let metrics = \<lparr>processingTimeMs = 0, metricsWidth = width, metricsHeight = height,
                     metricsMode = mode, success = False\<rparr>
      in if \<not> mInitialized p then (metrics, outputData, p)
         else case (inputData, outputData) of
             (Some inp, Some out) \<Rightarrow>
               if width \<le> 0 \<or> height \<le> 0 then (metrics, outputData, p)
               else
                 let (ok, out') =
                       (if mode = MODE_RAW then copyRawFrame inp width height out
                        else if mode = MODE_EDGE then applyCannyEdge cv mem p inp width height out
                        else if mode = MODE_GRAYSCALE
                          then convertToGrayscale cv p inp width height out
                        else copyRawFrame inp width height out);
                     metrics' = metrics\<lparr>processingTimeMs := endTime - startTime, success := ok\<rparr>
                 in (metrics', Some out', updateStatistics (processingTimeMs metrics') p)
           | _ \<Rightarrow> (metrics, outputData, p))"

section \<open>The JNI boundary\<close>

text \<open>
  \<open>g_processor\<close> is \<open>None\<close> when it is \<open>nullptr\<close>; a \<open>jbyteArray\<close> is \<open>None\<close> when the
  reference is null. \<open>GetByteArrayElements\<close> belongs to the Java runtime: whether it
  returns \<open>nullptr\<close> for the input and for the output array is a parameter.
\<close>

record JNIEnv =
  inputBytesNull :: bool
  outputBytesNull :: bool


definition Java_processFrame ::
    "opencv \<Rightarrow> fresh_memory \<Rightarrow> JNIEnv \<Rightarrow> OpenCVProcessor option \<Rightarrow> u8 list option
      \<Rightarrow> int \<Rightarrow> int \<Rightarrow> int
      \<Rightarrow> u8 list option \<Rightarrow> i64 \<Rightarrow> i64 \<Rightarrow> int \<times> u8 list option \<times> OpenCVProcessor option" where
  "Java_processFrame cv mem env g_processor inputArray width height mode outputArray startTime
       endTime =
     (case g_processor of
        None \<Rightarrow> (- 1, outputArray, g_processor)
      | Some p \<Rightarrow>
          (case (inputArray, outputArray) of
             (Some inputBytes, Some outputBytes) \<Rightarrow>
               let inputLength = int (length inputBytes);
                   expectedLength = int32 (width * height * 4);
                   outputLength = int (length outputBytes)
               in if inputLength < expectedLength then (- 1, outputArray, g_processor)
                  else if outputLength < expectedLength then (- 1, outputArray, g_processor)
                  else if inputBytesNull env \<or> outputBytesNull env
                    then (- 1, outputArray, g_processor)
                  else
                    let (metrics, out', p') =
                          processFrame cv mem p inputArray width height mode outputArray
                            startTime endTime
                    in (if \<not> success metrics then - 1 else sint (processingTimeMs metrics),
                        out', Some p')
           | _ \<Rightarrow> (- 1, outputArray, g_processor)))"

definition Java_setCannyThresholds ::
    "real \<Rightarrow> real \<Rightarrow> OpenCVProcessor option \<Rightarrow> OpenCVProcessor option" where
  "Java_setCannyThresholds lowThreshold highThreshold g_processor =
     (case g_processor of
        Some p \<Rightarrow> Some (setCannyThresholds lowThreshold highThreshold p)
      | None \<Rightarrow> None)"

definition Java_releaseOpenCV :: "OpenCVProcessor option \<Rightarrow> OpenCVProcessor option" where
  "Java_releaseOpenCV g_processor = None"

text \<open>
  \<open>yuv420ToRgba\<close>. The four buffers are what \<open>GetByteArrayElements\<close> returned (\<open>None\<close>:
  \<open>nullptr\<close>). A plane byte is a \<open>jbyte\<close>, read as \<open>yData[i] & 0xFF\<close>; \<open>>> 8\<close> on a negative
  \<open>int\<close> is the arithmetic shift.
\<close>

definition clamp255 :: "int \<Rightarrow> int" where
  "clamp255 v = (if v < 0 then 0 else if 255 < v then 255 else v)"

definition yuv_pixel :: "int \<Rightarrow> int \<Rightarrow> int \<Rightarrow> int \<times> int \<times> int" where
  "yuv_pixel Y U V =
     (let C = Y - 16; D = U - 128; E = V - 128;
          R = drop_bit 8 (298 * C + 409 * E + 128);
          G = drop_bit 8 (298 * C - 100 * D - 208 * E + 128);
          B = drop_bit 8 (298 * C + 516 * D + 128)
      in (clamp255 R, clamp255 G, clamp255 B))"

definition yuv_step ::
    "u8 list \<Rightarrow> u8 list \<Rightarrow> u8 list \<Rightarrow> int \<Rightarrow> int \<Rightarrow> int \<Rightarrow> int \<Rightarrow> int \<Rightarrow> int
      \<Rightarrow> u8 list \<Rightarrow> u8 list" where
  "yuv_step yData uData vData width yRowStride uvRowStride uvPixelStride y x outData =
     (let yIndex = y * yRowStride + x;
          uvIndex = (y div 2) * uvRowStride + (x div 2) * uvPixelStride;
          Y = sint (yData ! nat yIndex) AND 255;
          U = sint (uData ! nat uvIndex) AND 255;
          V = sint (vData ! nat uvIndex) AND 255;
          (R, G, B) = yuv_pixel Y U V;
          outIndex = nat ((y * width + x) * 4)
      in outData[outIndex := word_of_int R, outIndex + 1 := word_of_int G,
                 outIndex + 2 := word_of_int B, outIndex + 3 := word_of_int 255])"

definition Java_yuv420ToRgba ::
    "u8 list option \<Rightarrow> u8 list option \<Rightarrow> u8 list option \<Rightarrow> int \<Rightarrow> int \<Rightarrow> int \<Rightarrow> int \<Rightarrow> int
      \<Rightarrow> u8 list option \<Rightarrow> u8 list option" where
  "Java_yuv420ToRgba yPlane uPlane vPlane width height yRowStride uvRowStride uvPixelStride
       outputArray =
     (case (yPlane, uPlane, vPlane, outputArray) of
        (Some yData, Some uData, Some vData, Some outData) \<Rightarrow>
          Some (fold (\<lambda>y. fold (\<lambda>x.
                  yuv_step yData uData vData width yRowStride uvRowStride uvPixelStride y x)
                [0..width - 1]) [0..height - 1] outData)
      | _ \<Rightarrow> outputArray)"

section \<open>Frames, builds and call sequences used in the statements\<close>

text \<open>
  A frame fits when the dimensions are positive, \<open>width * height * 4\<close> is representable
  as an \<open>int\<close>, and both buffers hold at least that many bytes.
\<close>

definition frame_fits :: "int \<Rightarrow> int \<Rightarrow> u8 list \<Rightarrow> u8 list \<Rightarrow> bool" where
  "frame_fits width height inputData outputData \<longleftrightarrow>
     0 < width \<and> 0 < height \<and> width * height * 4 \<le> INT_MAX \<and>
     width * height * 4 \<le> int (length inputData) \<and>
     width * height * 4 \<le> int (length outputData)"

text \<open>
  The 3x3 Sobel convolutions as the specification words them: the grayscale value at
  column \<open>x\<close>, row \<open>y\<close>, and the two weighted sums over the eight neighbours.
\<close>

definition gray_at :: "u8 list \<Rightarrow> int \<Rightarrow> int \<Rightarrow> int \<Rightarrow> int" where
  "gray_at grayscale width x y = uint (grayscale ! nat (y * width + x))"

definition spec_sobel_gx :: "u8 list \<Rightarrow> int \<Rightarrow> int \<Rightarrow> int \<Rightarrow> int" where
  "spec_sobel_gx g w x y =
     - gray_at g w (x - 1) (y - 1) + gray_at g w (x + 1) (y - 1)
     - 2 * gray_at g w (x - 1) y + 2 * gray_at g w (x + 1) y
     - gray_at g w (x - 1) (y + 1) + gray_at g w (x + 1) (y + 1)"

definition spec_sobel_gy :: "u8 list \<Rightarrow> int \<Rightarrow> int \<Rightarrow> int \<Rightarrow> int" where
  "spec_sobel_gy g w x y =
     - gray_at g w (x - 1) (y - 1) - 2 * gray_at g w x (y - 1) - gray_at g w (x + 1) (y - 1)
     + gray_at g w (x - 1) (y + 1) + 2 * gray_at g w x (y + 1) + gray_at g w (x + 1) (y + 1)"

text \<open>
  The gradient map that \<open>applyCannyEdgeFallback\<close> holds in \<open>edgeData\<close> when the Sobel loops
  of \<open>simpleEdgeDetection\<close> are done and the threshold loop has not started.
\<close>

definition fallback_gradient :: "fresh_memory \<Rightarrow> u8 list \<Rightarrow> int \<Rightarrow> int \<Rightarrow> u8 list" where
  "fallback_gradient mem inputData width height =
     (let n = nat (int32 (width * height));
          grayData = gray_loop inputData n (new_array (freshGray mem) n)
      in sobel_loop grayData width height
           (memset (new_array (freshEdge mem) n) 0 (to_size_t (int32 (width * height)))))"

text \<open>
  The luminance as the specification words it: the floor of the weighted sum with the
  decimal weights 0.299, 0.587 and 0.114.
\<close>

definition spec_luminance :: "u8 \<Rightarrow> u8 \<Rightarrow> u8 \<Rightarrow> int" where
  "spec_luminance r g b =
     \<lfloor>299 / 1000 * rat_of_int (uint r) + 587 / 1000 * rat_of_int (uint g)
        + 114 / 1000 * rat_of_int (uint b)\<rfloor>"

text \<open>
  The average that the specification states for recorded times \<open>t\<^sub>1 \<dots> t\<^sub>N\<close>: their sum
  divided by \<open>N\<close>, and \<open>0\<close> when there are none.
\<close>

definition spec_average :: "int list \<Rightarrow> rat" where
  "spec_average ts = (if ts = [] then 0 else rat_of_int (sum_list ts) / rat_of_nat (length ts))"

text \<open>
  The planar source fits when \<open>width * height * 4\<close> is representable as an \<open>int\<close>, the
  output buffer holds that many bytes, the strides are not negative, and every sample
  index that the conversion reads lies inside its plane.
\<close>

definition yuv_fits ::
    "u8 list \<Rightarrow> u8 list \<Rightarrow> u8 list \<Rightarrow> int \<Rightarrow> int \<Rightarrow> int \<Rightarrow> int \<Rightarrow> int \<Rightarrow> u8 list \<Rightarrow> bool" where
  "yuv_fits yData uData vData width height yRowStride uvRowStride uvPixelStride outData \<longleftrightarrow>
     width * height * 4 \<le> INT_MAX \<and> width * height * 4 \<le> int (length outData) \<and>
     0 \<le> yRowStride \<and> 0 \<le> uvRowStride \<and> 0 \<le> uvPixelStride \<and>
     (\<forall>y \<in> set [0..height - 1]. \<forall>x \<in> set [0..width - 1].
        y * yRowStride + x < int (length yData) \<and>
        (y div 2) * uvRowStride + (x div 2) * uvPixelStride < int (length uData) \<and>
        (y div 2) * uvRowStride + (x div 2) * uvPixelStride < int (length vData))"

text \<open>A build without \<open>HAVE_OPENCV\<close>, and the processor after construction and \<open>initialize\<close>.\<close>

definition no_opencv :: opencv where
  "no_opencv = \<lparr>HAVE_OPENCV = False, testMatEmpty = None,
                 cvCanny = (\<lambda>inp w h lo hi ap. None), cvGray = (\<lambda>inp w h. None)\<rparr>"

definition ready_processor :: OpenCVProcessor where
  "ready_processor = snd (initialize no_opencv OpenCVProcessor_new)"

text \<open>Fresh memory that is not zero: every byte of \<open>grayData\<close> is 171, of \<open>edgeData\<close> 205.\<close>

definition junk_memory :: fresh_memory where
  "junk_memory = \<lparr>freshGray = (\<lambda>i. 171), freshEdge = (\<lambda>i. 205)\<rparr>"

definition jni_env :: JNIEnv where
  "jni_env = \<lparr>inputBytesNull = False, outputBytesNull = False\<rparr>"

text \<open>
  A caller's sequence of \<open>processFrame\<close> calls on one processor: each call is the input
  buffer, width, height, mode, output buffer and the two clock readings.
\<close>

type_synonym frame_call = "u8 list option \<times> int \<times> int \<times> int \<times> u8 list option \<times> i64 \<times> i64"

definition call_frame :: "opencv \<Rightarrow> fresh_memory \<Rightarrow> OpenCVProcessor \<Rightarrow> frame_call
    \<Rightarrow> ProcessingMetrics \<times> u8 list option \<times> OpenCVProcessor" where
  "call_frame cv mem p c =
     (case c of (inputData, width, height, mode, outputData, startTime, endTime) \<Rightarrow>
        processFrame cv mem p inputData width height mode outputData startTime endTime)"

fun run_frames ::
    "opencv \<Rightarrow> fresh_memory \<Rightarrow> OpenCVProcessor \<Rightarrow> frame_call list \<Rightarrow> OpenCVProcessor" where
  "run_frames cv mem p [] = p"
| "run_frames cv mem p (c # cs) = run_frames cv mem (snd (snd (call_frame cv mem p c))) cs"

definition call_valid :: "frame_call \<Rightarrow> bool" where
  "call_valid c =
     (case c of (inputData, width, height, mode, outputData, startTime, endTime) \<Rightarrow>
        inputData \<noteq> None \<and> outputData \<noteq> None \<and> 0 < width \<and> 0 < height)"

definition call_elapsed :: "frame_call \<Rightarrow> i64" where
  "call_elapsed c =
     (case c of (inputData, width, height, mode, outputData, startTime, endTime) \<Rightarrow>
        endTime - startTime)"

section \<open>Loops that write a buffer\<close>

lemma fold_inv:
  assumes "P out" and "\<And>a out. a \<in> set xs \<Longrightarrow> P out \<Longrightarrow> P (step a out)"
  shows "P (fold step xs out)"
  using assms by (induction xs arbitrary: out) auto

lemma fold_nth_written:
  assumes inv: "\<And>a out. a \<in> set xs \<Longrightarrow> P out \<Longrightarrow> P (step a out)"
    and frame: "\<And>a out j. a \<in> set xs \<Longrightarrow> j \<notin> W a \<Longrightarrow> step a out ! j = out ! j"
    and writes: "\<And>a out j. a \<in> set xs \<Longrightarrow> j \<in> W a \<Longrightarrow> P out \<Longrightarrow> step a out ! j = v a j"
    and disj: "\<And>a b. a \<in> set xs \<Longrightarrow> b \<in> set xs \<Longrightarrow> a \<noteq> b \<Longrightarrow> W a \<inter> W b = {}"
    and mem: "a \<in> set xs" and k: "k \<in> W a" and P: "P out"
  shows "fold step xs out ! k = v a k"
  using inv frame writes disj mem
proof (induction xs rule: rev_induct)
  case Nil
  then show ?case by simp
next
  case (snoc b ys)
  have Pys: "P (fold step ys out)"
    by (rule fold_inv [where P = P, OF P]) (simp add: snoc.prems(1))
  show ?case
  proof (cases "a = b")
    case True
    have "step b (fold step ys out) ! k = v b k"
      by (rule snoc.prems(3)) (use True k Pys in auto)
    then show ?thesis using True by simp
  next
    case False
    with snoc.prems(5) have a: "a \<in> set ys" by simp
    have "W a \<inter> W b = {}"
      by (rule snoc.prems(4)) (use a False in auto)
    with k have nk: "k \<notin> W b" by auto
    have IH: "fold step ys out ! k = v a k"
      by (rule snoc.IH) (use snoc.prems a in auto)
    have "step b (fold step ys out) ! k = fold step ys out ! k"
      by (rule snoc.prems(2)) (use nk in auto)
    then show ?thesis using IH by simp
  qed
qed

lemma length_write_pixel: "length (write_pixel idx v out) = length out"
  by (simp add: write_pixel_def)

lemma write_pixel_frame: "j \<notin> {idx, idx + 1, idx + 2, idx + 3} \<Longrightarrow> write_pixel idx v out ! j = out ! j"
  by (simp add: write_pixel_def)

lemma write_pixel_nth:
  "idx + 3 < length out \<Longrightarrow> c < 4 \<Longrightarrow> write_pixel idx v out ! (idx + c) = (if c < 3 then v else 255)"
  by (auto simp: write_pixel_def nth_list_update)

section \<open>Sizes, dispatch and the pass-through mode\<close>

lemma int32_id: "0 \<le> k \<Longrightarrow> k \<le> INT_MAX \<Longrightarrow> int32 k = k"
  by (simp add: int32_def INT_MAX_def signed_take_bit_int_eq_self)

lemma to_size_t_id: "0 \<le> k \<Longrightarrow> k \<le> INT_MAX \<Longrightarrow> to_size_t k = nat k"
  by (simp add: to_size_t_def INT_MAX_def take_bit_int_eq_self)

lemma frame_size:
  assumes "frame_fits width height inp out"
  shows "to_size_t (int32 (width * height * 4)) = nat (width * height * 4)"
    and "nat (width * height * 4) \<le> length inp"
    and "nat (width * height * 4) \<le> length out"
proof -
  from assms have pos: "0 \<le> width * height * 4" and le: "width * height * 4 \<le> INT_MAX"
    by (simp_all add: frame_fits_def)
  show "to_size_t (int32 (width * height * 4)) = nat (width * height * 4)"
    using pos le by (simp add: int32_id to_size_t_id)
  show "nat (width * height * 4) \<le> length inp" "nat (width * height * 4) \<le> length out"
    using assms unfolding frame_fits_def by linarith+
qed

lemma processFrame_dispatch:
  assumes "mInitialized p" "0 < width" "0 < height"
  shows "processFrame cv mem p (Some inp) width height mode (Some out) startTime endTime =
     (let r = (if mode = MODE_RAW then copyRawFrame inp width height out
               else if mode = MODE_EDGE then applyCannyEdge cv mem p inp width height out
               else if mode = MODE_GRAYSCALE then convertToGrayscale cv p inp width height out
               else copyRawFrame inp width height out)
      in (\<lparr>processingTimeMs = endTime - startTime, metricsWidth = width,
            metricsHeight = height, metricsMode = mode, success = fst r\<rparr>,
          Some (snd r), updateStatistics (endTime - startTime) p))"
  using assms by (simp add: processFrame_def Let_def split: prod.splits)

text \<open>
  Claim C1. On an initialised processor, with both buffers present and a frame that fits,
  \<open>processFrame\<close> in mode \<open>MODE_RAW\<close>, and likewise in any mode that is none of the
  three known ones, reports success, and the output buffer then starts with the first
  \<open>width * height * 4\<close> bytes of the input (the bytes beyond them are untouched).
\<close>

theorem processFrame_passthrough:
  assumes "mInitialized p" and "frame_fits width height inp out"
    and "mode = MODE_RAW \<or> (mode \<noteq> MODE_EDGE \<and> mode \<noteq> MODE_GRAYSCALE)"
  shows "success (fst (processFrame cv mem p (Some inp) width height mode (Some out) startTime endTime))
     \<and> fst (snd (processFrame cv mem p (Some inp) width height mode (Some out) startTime endTime))
         = Some (take (nat (width * height * 4)) inp @ drop (nat (width * height * 4)) out)"
proof -
  have dims: "0 < width" "0 < height" using assms(2) by (simp_all add: frame_fits_def)
  have raw: "(if mode = MODE_RAW then copyRawFrame inp width height out
               else if mode = MODE_EDGE then applyCannyEdge cv mem p inp width height out
               else if mode = MODE_GRAYSCALE then convertToGrayscale cv p inp width height out
               else copyRawFrame inp width height out) = copyRawFrame inp width height out"
    using assms(3) by auto
  show ?thesis
    unfolding processFrame_dispatch [OF assms(1) dims] raw
    by (simp add: Let_def copyRawFrame_def memcpy_def frame_size(1) [OF assms(2)])
qed

theorem processFrame_passthrough_witness:
  "success (fst (processFrame no_opencv junk_memory ready_processor (Some [1, 2, 3, 4, 5]) 1 1 7 (Some [0, 0, 0, 0, 9]) 100 103))
     \<and> fst (snd (processFrame no_opencv junk_memory ready_processor (Some [1, 2, 3, 4, 5]) 1 1 7 (Some [0, 0, 0, 0, 9]) 100 103))
         = Some [1, 2, 3, 4, 9]"
proof -
  have 1: "mInitialized ready_processor"
    by (simp add: ready_processor_def initialize_def OpenCVProcessor_new_def Let_def)
  have 2: "frame_fits 1 1 [1, 2, 3, 4, 5] [0, 0, 0, 0, 9]"
    by (simp add: frame_fits_def INT_MAX_def)
  have 3: "(7::int) = MODE_RAW \<or> (7 \<noteq> MODE_EDGE \<and> 7 \<noteq> MODE_GRAYSCALE)"
    by (simp add: MODE_RAW_def MODE_EDGE_def MODE_GRAYSCALE_def)
  show ?thesis
    using processFrame_passthrough [OF 1 2 3, where cv = no_opencv and mem = junk_memory
        and startTime = 100 and endTime = 103] by simp
qed

section \<open>Initialisation\<close>


section \<open>Rejected calls\<close>

lemma processFrame_rejects:
  assumes "\<not> mInitialized p \<or> inputData = None \<or> outputData = None \<or> width \<le> 0 \<or> height \<le> 0"
  shows "processFrame cv mem p inputData width height mode outputData startTime endTime =
     (\<lparr>processingTimeMs = 0, metricsWidth = width, metricsHeight = height,
        metricsMode = mode, success = False\<rparr>, outputData, p)"
  using assms by (auto simp: processFrame_def Let_def split: option.splits)

lemma Java_processFrame_rejects_short:
  assumes "0 \<le> width * height * 4" "width * height * 4 \<le> INT_MAX"
    and "int (length inputBytes) < width * height * 4 \<or> int (length outputBytes) < width * height * 4"
  shows "Java_processFrame cv mem env g (Some inputBytes) width height mode (Some outputBytes)
           startTime endTime = (- 1, Some outputBytes, g)"
  using assms by (cases g) (auto simp: Java_processFrame_def Let_def int32_id)

lemma Java_processFrame_rejects_invalid:
  assumes "g = None \<or> inputArray = None \<or> outputArray = None \<or> width \<le> 0 \<or> height \<le> 0"
  shows "Java_processFrame cv mem env g inputArray width height mode outputArray startTime endTime
           = (- 1, outputArray, g)"
proof (cases g)
  case None
  then show ?thesis by (simp add: Java_processFrame_def)
next
  case (Some p)
  show ?thesis
  proof (cases "inputArray = None \<or> outputArray = None")
    case True
    then show ?thesis using Some by (auto simp: Java_processFrame_def split: option.splits)
  next
    case False
    then obtain inp out where io: "inputArray = Some inp" "outputArray = Some out" by auto
    from assms Some False have "width \<le> 0 \<or> height \<le> 0" by auto
    then have "processFrame cv mem p (Some inp) width height mode (Some out) startTime endTime =
       (\<lparr>processingTimeMs = 0, metricsWidth = width, metricsHeight = height,
        metricsMode = mode, success = False\<rparr>, Some out, p)"
      by (intro processFrame_rejects) simp
    then show ?thesis using Some io by (simp add: Java_processFrame_def Let_def)
  qed
qed

text \<open>
  Claim C4. With \<open>width = height = 32768\<close> the product \<open>width * height * 4\<close> is \<open>2^32\<close>,
  which wraps to \<open>0\<close> in \<open>jsize expectedLength\<close>. Two arrays of four bytes, far shorter than
  \<open>width * height * 4\<close> bytes, pass both length checks; in mode \<open>MODE_RAW\<close> the call then
  copies \<open>0\<close> bytes, records the frame in the statistics and returns the elapsed time
  \<open>5\<close>, not \<open>-1\<close>.
\<close>

theorem Java_processFrame_size_overflow:
  "Java_processFrame no_opencv junk_memory jni_env (Some ready_processor) (Some [1, 2, 3, 4]) 32768 32768 0
      (Some [9, 9, 9, 9]) 100 105
     = (5, Some [9, 9, 9, 9], Some (updateStatistics 5 ready_processor))"
  by (simp add: Java_processFrame_def jni_env_def int32_def processFrame_def ready_processor_def
      initialize_def OpenCVProcessor_new_def Let_def MODE_RAW_def copyRawFrame_def memcpy_def
      to_size_t_def no_opencv_def)

section \<open>Sequences of calls and the counters\<close>

lemma call_frame_valid:
  assumes "mInitialized p" "call_valid c"
  shows "success (fst (call_frame cv mem p c))"
    and "snd (snd (call_frame cv mem p c)) = updateStatistics (call_elapsed c) p"
proof -
  obtain inputData width height mode outputData startTime endTime
    where c: "c = (inputData, width, height, mode, outputData, startTime, endTime)"
    by (cases c)
  from assms(2) obtain inp out where io: "inputData = Some inp" "outputData = Some out"
    and dims: "0 < width" "0 < height"
    by (auto simp: call_valid_def c)
  show "snd (snd (call_frame cv mem p c)) = updateStatistics (call_elapsed c) p"
    by (simp add: call_frame_def c io processFrame_dispatch [OF assms(1) dims] Let_def
        call_elapsed_def)
  show "success (fst (call_frame cv mem p c))"
    by (simp add: call_frame_def c io processFrame_dispatch [OF assms(1) dims] Let_def
        copyRawFrame_def applyCannyEdge_def convertToGrayscale_def applyCannyEdgeFallback_def
        convertToGrayscaleFallback_def split: option.splits)
qed

lemma updateStatistics_fields:
  "mInitialized (updateStatistics t p) = mInitialized p"
  "mOpenCVAvailable (updateStatistics t p) = mOpenCVAvailable p"
  "mTotalFramesProcessed (updateStatistics t p) = mTotalFramesProcessed p + 1"
  "mTotalProcessingTimeMs (updateStatistics t p) = mTotalProcessingTimeMs p + t"
  "mLastProcessingTimeMs (updateStatistics t p) = t"
  by (simp_all add: updateStatistics_def)

lemma run_frames_counters:
  assumes "mInitialized p" "\<forall>c \<in> set cs. call_valid c"
  shows "mInitialized (run_frames cv mem p cs)
    \<and> mTotalFramesProcessed (run_frames cv mem p cs) = mTotalFramesProcessed p + of_nat (length cs)
    \<and> mTotalProcessingTimeMs (run_frames cv mem p cs)
        = mTotalProcessingTimeMs p + sum_list (map call_elapsed cs)
    \<and> mLastProcessingTimeMs (run_frames cv mem p cs)
        = (if cs = [] then mLastProcessingTimeMs p else call_elapsed (last cs))"
  using assms
proof (induction cs arbitrary: p)
  case Nil
  then show ?case by simp
next
  case (Cons c cs)
  have v: "call_valid c" using Cons.prems(2) by simp
  have step: "snd (snd (call_frame cv mem p c)) = updateStatistics (call_elapsed c) p"
    by (rule call_frame_valid(2) [OF Cons.prems(1) v])
  have init: "mInitialized (updateStatistics (call_elapsed c) p)"
    using Cons.prems(1) by (simp add: updateStatistics_fields)
  have rest: "\<forall>c \<in> set cs. call_valid c" using Cons.prems(2) by simp
  show ?case
    using Cons.IH [OF init rest]
    by (simp add: step updateStatistics_fields add.assoc)
qed

lemma sum_list_word_sint:
  "sum_list (map f cs) = (word_of_int (\<Sum>c\<leftarrow>cs. sint (f c)) :: 64 word)"
  by (induction cs) simp_all

lemma unat_word_of_int_64:
  assumes "0 \<le> k" "k < 2 ^ 64"
  shows "unat (word_of_int k :: 64 word) = nat k"
proof -
  have "uint (word_of_int k :: 64 word) = k"
    using assms by (simp add: uint_word_of_int take_bit_int_eq_self)
  then show ?thesis by (simp add: unat_eq_nat_uint)
qed

lemma unat_of_nat_64:
  assumes "n < 2 ^ 64"
  shows "unat (of_nat n :: 64 word) = n"
  using assms by (simp add: unat_of_nat)

lemma ready_fresh:
  "mInitialized (snd (initialize cv OpenCVProcessor_new))"
  "mTotalFramesProcessed (snd (initialize cv OpenCVProcessor_new)) = 0"
  "mTotalProcessingTimeMs (snd (initialize cv OpenCVProcessor_new)) = 0"
  "mLastProcessingTimeMs (snd (initialize cv OpenCVProcessor_new)) = 0"
  by (simp_all add: initialize_def OpenCVProcessor_new_def Let_def)

section \<open>The pixel loops\<close>

lemma pixel_loop_nth:
  assumes len: "n * 4 \<le> length out" and i: "i < n" and c: "c < 4"
  shows "fold (\<lambda>i out. write_pixel (i * 4) (val i) out) [0..<n] out ! (i * 4 + c)
         = (if c < 3 then val i else 255)"
proof -
  have "fold (\<lambda>i out. write_pixel (i * 4) (val i) out) [0..<n] out ! (i * 4 + c)
      = (\<lambda>a j. if j < a * 4 + 3 then val a else 255) i (i * 4 + c)"
  proof (rule fold_nth_written [where P = "\<lambda>b. length b = length out"
        and W = "\<lambda>a. {a * 4, a * 4 + 1, a * 4 + 2, a * 4 + 3}"])
    show "i \<in> set [0..<n]" using i by simp
    show "i * 4 + c \<in> {i * 4, i * 4 + 1, i * 4 + 2, i * 4 + 3}" using c by auto
    show "length out = length out" by simp
  next
    fix a :: nat and b :: "u8 list" assume "a \<in> set [0..<n]" "length b = length out"
    then show "length (write_pixel (a * 4) (val a) b) = length out"
      by (simp add: length_write_pixel)
  next
    fix a j :: nat and b :: "u8 list" assume "a \<in> set [0..<n]" "j \<notin> {a * 4, a * 4 + 1, a * 4 + 2, a * 4 + 3}"
    then show "write_pixel (a * 4) (val a) b ! j = b ! j"
      by (simp add: write_pixel_frame)
  next
    fix a j :: nat and b :: "u8 list"
    assume a: "a \<in> set [0..<n]" and j: "j \<in> {a * 4, a * 4 + 1, a * 4 + 2, a * 4 + 3}"
      and b: "length b = length out"
    from j obtain d where d: "d < 4" "j = a * 4 + d" by auto
    have "a * 4 + 3 < length b" using a len b by simp
    then show "write_pixel (a * 4) (val a) b ! j = (if j < a * 4 + 3 then val a else 255)"
      using write_pixel_nth [of "a * 4" b d "val a"] d by auto
  next
    fix a b :: nat assume "a \<noteq> b"
    then show "{a * 4, a * 4 + 1, a * 4 + 2, a * 4 + 3} \<inter> {b * 4, b * 4 + 1, b * 4 + 2, b * 4 + 3} = {}"
      by auto
  qed
  then show ?thesis by simp
qed

lemma threshold_loop_Suc:
  "threshold_loop (Suc n) out =
     (threshold_loop n out)[n := (if 50 < threshold_loop n out ! n then 255 else 0)]"
  by (simp add: threshold_loop_def)

lemma length_threshold_loop: "length (threshold_loop n out) = length out"
  by (induction n) (simp_all add: threshold_loop_Suc, simp add: threshold_loop_def)

lemma threshold_loop_nth:
  "n \<le> length out \<Longrightarrow>
   threshold_loop n out ! i = (if i < n then (if 50 < out ! i then 255 else 0) else out ! i)"
proof (induction n arbitrary: i)
  case 0
  then show ?case by (simp add: threshold_loop_def)
next
  case (Suc n)
  then have n: "n \<le> length out" "n < length (threshold_loop n out)"
    by (simp_all add: length_threshold_loop)
  show ?case
    unfolding threshold_loop_Suc
    using Suc.IH [OF n(1)] n(2) by (auto simp: nth_list_update less_Suc_eq)
qed

lemma gray_loop_nth:
  assumes "n \<le> length gd" "i < n"
  shows "gray_loop inp n gd ! i = rgbaToGray (inp ! (i * 4)) (inp ! (i * 4 + 1)) (inp ! (i * 4 + 2))"
  unfolding gray_loop_def
proof (rule fold_nth_written [where P = "\<lambda>b. length b = length gd" and W = "\<lambda>a. {a}"
      and v = "\<lambda>a j. rgbaToGray (inp ! (a * 4)) (inp ! (a * 4 + 1)) (inp ! (a * 4 + 2))"])
  show "i \<in> set [0..<n]" using assms by simp
qed (use assms in \<open>auto simp: Let_def\<close>)

section \<open>The Sobel pass\<close>

lemma sqrt_search_bounds:
  "r * r \<le> n \<Longrightarrow> sqrt_search r n * sqrt_search r n \<le> n
     \<and> n < (sqrt_search r n + 1) * (sqrt_search r n + 1)"
proof (induction r n rule: sqrt_search.induct)
  case (1 r n)
  show ?case
  proof (cases "(r + 1) * (r + 1) \<le> n")
    case True
    then show ?thesis using "1.IH" by (subst (1 2 3 4) sqrt_search.simps) simp
  next
    case False
    then show ?thesis using "1.prems" by (subst (1 2 3 4) sqrt_search.simps) simp
  qed
qed

lemma sqrt_to_int_floor:
  assumes "0 \<le> n"
  shows "sqrt_to_int n = \<lfloor>sqrt (real_of_int n)\<rfloor>"
proof -
  define s where "s = sqrt_search 0 (nat n)"
  have b: "s * s \<le> nat n" "nat n < (s + 1) * (s + 1)"
    using sqrt_search_bounds [of 0 "nat n"] by (simp_all add: s_def)
  have lo: "(real s)\<^sup>2 \<le> real_of_int n"
  proof -
    have "real (s * s) \<le> real (nat n)" using b(1) by (simp only: of_nat_le_iff)
    then show ?thesis using assms by (simp add: power2_eq_square)
  qed
  have hi: "real_of_int n < (real s + 1)\<^sup>2"
  proof -
    have "real (nat n) < real ((s + 1) * (s + 1))" using b(2) by (simp only: of_nat_less_iff)
    then show ?thesis using assms by (simp add: power2_eq_square algebra_simps)
  qed
  have "real s \<le> sqrt (real_of_int n)" by (rule real_le_rsqrt [OF lo])
  moreover have "sqrt (real_of_int n) < real s + 1" by (rule real_less_lsqrt [OF _ hi]) simp
  ultimately have "\<lfloor>sqrt (real_of_int n)\<rfloor> = int s"
    by (intro floor_unique) simp_all
  then show ?thesis by (simp add: sqrt_to_int_def s_def)
qed

lemma sqrt_to_int_nonneg: "0 \<le> sqrt_to_int n"
  by (simp add: sqrt_to_int_def)

lemma sobel_magnitude_range: "0 \<le> sobel_magnitude g" "sobel_magnitude g \<le> 255"
  by (simp_all add: sobel_magnitude_def sqrt_to_int_nonneg split: prod.splits)

lemma uint_magnitude: "uint (word_of_int (sobel_magnitude g) :: u8) = sobel_magnitude g"
proof -
  have "sobel_magnitude g mod 256 = sobel_magnitude g"
    using sobel_magnitude_range [of g] by (simp add: mod_pos_pos_trivial)
  then show ?thesis by (simp add: uint_word_of_int take_bit_eq_mod)
qed

lemma sobel_convolve_spec:
  "sobel_convolve g w x y = (spec_sobel_gx g w x y, spec_sobel_gy g w x y)"
  by (simp add: sobel_convolve_def sobelX_def sobelY_def spec_sobel_gx_def spec_sobel_gy_def
      gray_at_def Let_def algebra_simps)

lemma interior_index:
  fixes x y w h :: int
  assumes "1 \<le> x" "x \<le> w - 2" "1 \<le> y" "y \<le> h - 2"
  shows "0 \<le> y * w + x" and "y * w + x < w * h"
proof -
  have w: "0 \<le> w" using assms by simp
  have "1 * w \<le> y * w" by (rule mult_right_mono [OF assms(3) w])
  then show "0 \<le> y * w + x" using assms w by simp
  have "y * w \<le> (h - 2) * w" by (rule mult_right_mono [OF assms(4) w])
  then have "y * w + x \<le> h * w - 2 * w + (w - 2)" using assms(2) by (simp add: algebra_simps)
  then show "y * w + x < w * h" using w by (simp add: algebra_simps)
qed

lemma row_major_inj:
  fixes x y w x' y' :: int
  assumes "0 \<le> x" "x < w" "0 \<le> x'" "x' < w" "y * w + x = y' * w + x'"
  shows "y = y'"
proof -
  have a: "(y * w + x) div w = y" using assms(1,2) by simp
  have b: "(y' * w + x') div w = y'" using assms(3,4) by simp
  have "y = (y * w + x) div w" by (rule a [symmetric])
  also have "\<dots> = (y' * w + x') div w" by (simp only: assms(5))
  also have "\<dots> = y'" by (rule b)
  finally show ?thesis .
qed


lemma fold_nested:
  "fold (\<lambda>y. fold (s y) xs) ys = fold (\<lambda>(y, x). s y x) (List.product ys xs)"
  by (induction ys) (simp_all add: fold_map comp_def)

lemma fold_update_length: "length (fold (\<lambda>a out. out[f a := val a]) xs out) = length out"
  by (rule fold_inv [where P = "\<lambda>b. length b = length out"]) simp_all

lemma fold_update_nth:
  fixes out :: "'b list"
  assumes a: "a \<in> set xs"
    and range: "\<And>a. a \<in> set xs \<Longrightarrow> f a < length out"
    and inj: "\<And>a b. a \<in> set xs \<Longrightarrow> b \<in> set xs \<Longrightarrow> a \<noteq> b \<Longrightarrow> f a \<noteq> f b"
  shows "fold (\<lambda>a out. out[f a := val a]) xs out ! f a = val a"
proof (rule fold_nth_written [where P = "\<lambda>b. length b = length out"
      and W = "\<lambda>a. {f a}" and v = "\<lambda>a j. val a" and a = a])
  show "a \<in> set xs" by (rule a)
  show "f a \<in> {f a}" by simp
  show "length out = length out" by simp
next
  fix a and b :: "'b list" assume "a \<in> set xs" "length b = length out"
  then show "length (b[f a := val a]) = length out" by simp
next
  fix a j and b :: "'b list" assume "a \<in> set xs" "j \<notin> {f a}"
  then show "b[f a := val a] ! j = b ! j" by simp
next
  fix a j and b :: "'b list"
  assume "a \<in> set xs" "j \<in> {f a}" "length b = length out"
  then show "b[f a := val a] ! j = val a" using range [of a] by simp
next
  fix a b assume "a \<in> set xs" "b \<in> set xs" "a \<noteq> b"
  then show "{f a} \<inter> {f b} = {}" using inj [of a b] by simp
qed

lemma sobel_loop_flat:
  "sobel_loop g w h out =
     fold (\<lambda>a out. out[(\<lambda>(y, x). nat (y * w + x)) a :=
               (\<lambda>(y, x). word_of_int (sobel_magnitude (sobel_convolve g w x y))) a])
       (List.product [1..h - 2] [1..w - 2]) out"
  by (simp add: sobel_loop_def Let_def fold_nested split_def)

lemma length_sobel_loop: "length (sobel_loop g w h out) = length out"
  unfolding sobel_loop_flat by (rule fold_update_length)

lemma sobel_loop_nth:
  assumes x: "1 \<le> x" "x \<le> w - 2" and y: "1 \<le> y" "y \<le> h - 2"
    and len: "nat (w * h) \<le> length out"
  shows "sobel_loop g w h out ! nat (y * w + x)
         = word_of_int (sobel_magnitude (sobel_convolve g w x y))"
proof -
  let ?f = "\<lambda>(y, x). nat (y * w + x)"
  let ?val = "\<lambda>(y, x). word_of_int (sobel_magnitude (sobel_convolve g w x y)) :: u8"
  let ?xs = "List.product [1..h - 2] [1..w - 2]"
  have mem: "(y, x) \<in> set ?xs" using x y by simp
  have range: "\<And>a. a \<in> set ?xs \<Longrightarrow> ?f a < length out"
  proof -
    fix a assume "a \<in> set ?xs"
    then obtain y' x' where a: "a = (y', x')" "1 \<le> x'" "x' \<le> w - 2" "1 \<le> y'" "y' \<le> h - 2"
      by auto
    have "0 \<le> y' * w + x'" "y' * w + x' < w * h"
      using interior_index [OF a(2,3,4,5)] by simp_all
    then show "?f a < length out" using len a(1) by simp
  qed
  have inj: "\<And>a b. a \<in> set ?xs \<Longrightarrow> b \<in> set ?xs \<Longrightarrow> a \<noteq> b \<Longrightarrow> ?f a \<noteq> ?f b"
  proof -
    fix a b assume A: "a \<in> set ?xs" and B: "b \<in> set ?xs" and ne: "a \<noteq> b"
    from A obtain y1 x1 where a: "a = (y1, x1)" "1 \<le> x1" "x1 \<le> w - 2" "1 \<le> y1" "y1 \<le> h - 2"
      by auto
    from B obtain y2 x2 where b: "b = (y2, x2)" "1 \<le> x2" "x2 \<le> w - 2" "1 \<le> y2" "y2 \<le> h - 2"
      by auto
    have p: "0 \<le> y1 * w + x1" "0 \<le> y2 * w + x2"
      using interior_index(1) [OF a(2,3,4,5)] interior_index(1) [OF b(2,3,4,5)] by simp_all
    show "?f a \<noteq> ?f b"
    proof
      assume "?f a = ?f b"
      then have eq: "y1 * w + x1 = y2 * w + x2" using p a(1) b(1) by simp
      have "y1 = y2" by (rule row_major_inj [OF _ _ _ _ eq]) (use a b in auto)
      then show False using eq ne a(1) b(1) by simp
    qed
  qed
  have "fold (\<lambda>a out. out[?f a := ?val a]) ?xs out ! ?f (y, x) = ?val (y, x)"
    by (rule fold_update_nth [OF mem range inj])
  then show ?thesis by (simp add: sobel_loop_flat)
qed

lemma sobel_loop_small:
  assumes "w \<le> 2 \<or> h \<le> 2"
  shows "sobel_loop g w h out = out"
proof (cases "h \<le> 2")
  case True
  then show ?thesis by (simp add: sobel_loop_def)
next
  case False
  with assms have "w \<le> 2" by simp
  then have "fold (\<lambda>y. fold (\<lambda>x out.
         let magnitude = sobel_magnitude (sobel_convolve g w x y)
         in out[nat (y * w + x) := word_of_int magnitude]) [1..w - 2]) ys out = out" for ys
    by (induction ys) simp_all
  then show ?thesis by (simp add: sobel_loop_def)
qed

lemma sobel_magnitude_2_2: "sobel_magnitude (2, 2) = 2"
  by code_simp

text \<open>
  Claim C3. The code truncates the square root (\<open>static_cast<int>\<close>), it does not round
  it: at every interior pixel the Sobel loops write
  \<open>min 255 \<lfloor>sqrt (gx\<^sup>2 + gy\<^sup>2)\<rfloor>\<close>, where \<open>gx\<close> and \<open>gy\<close> are the 3x3 Sobel convolutions
  of the grayscale input at that pixel.
\<close>

theorem sobel_gradient_magnitude:
  assumes "1 \<le> x" "x \<le> w - 2" "1 \<le> y" "y \<le> h - 2" "nat (w * h) \<le> length out"
  shows "uint (sobel_loop g w h out ! nat (y * w + x))
         = min 255 \<lfloor>sqrt (real_of_int ((spec_sobel_gx g w x y)\<^sup>2 + (spec_sobel_gy g w x y)\<^sup>2))\<rfloor>"
proof -
  have "0 \<le> (spec_sobel_gx g w x y)\<^sup>2 + (spec_sobel_gy g w x y)\<^sup>2" by simp
  then have "sqrt_to_int ((spec_sobel_gx g w x y)\<^sup>2 + (spec_sobel_gy g w x y)\<^sup>2)
      = \<lfloor>sqrt (real_of_int ((spec_sobel_gx g w x y)\<^sup>2 + (spec_sobel_gy g w x y)\<^sup>2))\<rfloor>"
    by (rule sqrt_to_int_floor)
  then have "sobel_magnitude (sobel_convolve g w x y)
      = min 255 \<lfloor>sqrt (real_of_int ((spec_sobel_gx g w x y)\<^sup>2 + (spec_sobel_gy g w x y)\<^sup>2))\<rfloor>"
    by (simp add: sobel_magnitude_def sobel_convolve_spec power2_eq_square)
  then show ?thesis
    unfolding sobel_loop_nth [OF assms] uint_magnitude .
qed

theorem sobel_gradient_magnitude_witness:
  "uint (sobel_loop [0, 0, 0, 0, 0, 0, 0, 0, 2] 3 3 (replicate 9 7) ! nat (1 * 3 + 1))
     = min 255 \<lfloor>sqrt (real_of_int ((spec_sobel_gx [0, 0, 0, 0, 0, 0, 0, 0, 2] 3 1 1)\<^sup>2
                                    + (spec_sobel_gy [0, 0, 0, 0, 0, 0, 0, 0, 2] 3 1 1)\<^sup>2))\<rfloor>"
  by (rule sobel_gradient_magnitude) simp_all

theorem sobel_round_counterexample:
  "uint (sobel_loop [0, 0, 0, 0, 0, 0, 0, 0, 2] 3 3 (replicate 9 0) ! nat (1 * 3 + 1)) = 2
   \<and> min 255 (round (sqrt (real_of_int ((spec_sobel_gx [0, 0, 0, 0, 0, 0, 0, 0, 2] 3 1 1)\<^sup>2
                                    + (spec_sobel_gy [0, 0, 0, 0, 0, 0, 0, 0, 2] 3 1 1)\<^sup>2)))) = 3"
proof -
  have gx: "spec_sobel_gx [0, 0, 0, 0, 0, 0, 0, 0, 2] 3 1 1 = 2"
    by (simp add: spec_sobel_gx_def gray_at_def)
  have gy: "spec_sobel_gy [0, 0, 0, 0, 0, 0, 0, 0, 2] 3 1 1 = 2"
    by (simp add: spec_sobel_gy_def gray_at_def)
  note g = gx gy
  have "sobel_loop [0, 0, 0, 0, 0, 0, 0, 0, 2] 3 3 (replicate 9 0) ! nat (1 * 3 + 1)
      = word_of_int (sobel_magnitude (sobel_convolve [0, 0, 0, 0, 0, 0, 0, 0, 2] 3 1 1))"
    by (rule sobel_loop_nth) simp_all
  also have "\<dots> = word_of_int (sobel_magnitude (2, 2))"
    by (simp only: sobel_convolve_spec g)
  also have "\<dots> = 2"
    by (simp only: sobel_magnitude_2_2) simp
  finally have lhs: "uint (sobel_loop [0, 0, 0, 0, 0, 0, 0, 0, 2] 3 3 (replicate 9 0) ! nat (1 * 3 + 1)) = 2"
    by simp
  have "(5 / 2)\<^sup>2 \<le> (8::real)" by (simp add: power2_eq_square)
  then have lo: "5 / 2 \<le> sqrt 8" by (rule real_le_rsqrt)
  have "(8::real) < (7 / 2)\<^sup>2" by (simp add: power2_eq_square)
  then have hi: "sqrt 8 < 7 / 2" by (intro real_less_lsqrt) simp_all
  have "round (sqrt 8) = 3"
    by (rule round_unique) (use lo hi in simp_all)
  then have rhs: "min 255 (round (sqrt (real_of_int ((spec_sobel_gx [0, 0, 0, 0, 0, 0, 0, 0, 2] 3 1 1)\<^sup>2
                                    + (spec_sobel_gy [0, 0, 0, 0, 0, 0, 0, 0, 2] 3 1 1)\<^sup>2)))) = 3"
    by (simp add: g)
  show ?thesis using lhs rhs by (rule conjI)
qed

section \<open>The fallback edge detector\<close>

lemma frame_pixels:
  assumes "frame_fits w h inp out"
  shows "int32 (w * h) = w * h" and "to_size_t (w * h) = nat (w * h)"
    and "nat (w * h) * 4 \<le> length inp" and "nat (w * h) * 4 \<le> length out"
    and "0 < w * h"
proof -
  from assms have d: "0 < w" "0 < h" and m: "w * h * 4 \<le> INT_MAX"
    and li: "w * h * 4 \<le> int (length inp)" and lo: "w * h * 4 \<le> int (length out)"
    by (simp_all add: frame_fits_def)
  show p: "0 < w * h" using d by simp
  then have b: "0 \<le> w * h" "w * h \<le> INT_MAX" using m by linarith+
  show "int32 (w * h) = w * h" by (rule int32_id [OF b])
  show "to_size_t (w * h) = nat (w * h)" by (rule to_size_t_id [OF b])
  show "nat (w * h) * 4 \<le> length inp" using li p by linarith
  show "nat (w * h) * 4 \<le> length out" using lo p by linarith
qed

lemma length_new_array: "length (new_array content n) = n"
  by (simp add: new_array_def)

lemma memset_new_array: "memset (new_array content n) v n = replicate n v"
  by (simp add: memset_def length_new_array)

lemma fallback_gradient_eq:
  assumes "frame_fits w h inp out"
  shows "fallback_gradient mem inp w h
         = sobel_loop (gray_loop inp (nat (w * h)) (new_array (freshGray mem) (nat (w * h)))) w h
             (replicate (nat (w * h)) 0)"
  by (simp add: fallback_gradient_def Let_def frame_pixels(1,2) [OF assms] memset_new_array)

lemma length_fallback_gradient:
  assumes "frame_fits w h inp out"
  shows "length (fallback_gradient mem inp w h) = nat (w * h)"
  by (simp add: fallback_gradient_eq [OF assms] length_sobel_loop)

lemma applyCannyEdgeFallback_eq:
  "applyCannyEdgeFallback mem inp w h out =
     (True, edge_to_rgba_loop
        (threshold_loop (nat (int32 (w * h))) (fallback_gradient mem inp w h))
        (nat (int32 (w * h))) out)"
  by (simp add: applyCannyEdgeFallback_def simpleEdgeDetection_def fallback_gradient_def Let_def)

lemma edge_to_rgba_loop_nth:
  assumes "n * 4 \<le> length out" "i < n" "c < 4"
  shows "edge_to_rgba_loop e n out ! (i * 4 + c) = (if c < 3 then e ! i else 255)"
  using pixel_loop_nth [OF assms, of "\<lambda>i. e ! i"] by (simp add: edge_to_rgba_loop_def Let_def)

lemma edge_fallback_pixel:
  assumes fits: "frame_fits w h inp out" and i: "i < nat (w * h)" and c: "c < 4"
  shows "snd (applyCannyEdgeFallback mem inp w h out) ! (i * 4 + c)
         = (if c < 3 then (if 50 < fallback_gradient mem inp w h ! i then 255 else 0) else 255)"
proof -
  let ?n = "nat (w * h)"
  have len: "?n \<le> length (fallback_gradient mem inp w h)"
    by (simp add: length_fallback_gradient [OF fits])
  have "snd (applyCannyEdgeFallback mem inp w h out) ! (i * 4 + c)
      = edge_to_rgba_loop (threshold_loop ?n (fallback_gradient mem inp w h)) ?n out ! (i * 4 + c)"
    by (simp add: applyCannyEdgeFallback_eq frame_pixels(1) [OF fits])
  also have "\<dots> = (if c < 3 then threshold_loop ?n (fallback_gradient mem inp w h) ! i else 255)"
    by (rule edge_to_rgba_loop_nth [OF frame_pixels(4) [OF fits] i c])
  also have "\<dots> = (if c < 3 then (if 50 < fallback_gradient mem inp w h ! i then 255 else 0) else 255)"
    using i by (simp add: threshold_loop_nth [OF len])
  finally show ?thesis .
qed

text \<open>
  Claim C5. For a frame that fits, \<open>applyCannyEdgeFallback\<close> succeeds, and in every output
  pixel the R, G and B bytes are \<open>255\<close> when the gradient value of that pixel is greater
  than \<open>50\<close> and \<open>0\<close> otherwise, and the alpha byte is \<open>255\<close>.
\<close>

theorem edge_fallback_binary:
  assumes "frame_fits w h inp out" and "i < nat (w * h)"
  shows "fst (applyCannyEdgeFallback mem inp w h out)
    \<and> snd (applyCannyEdgeFallback mem inp w h out) ! (i * 4)
        = (if 50 < fallback_gradient mem inp w h ! i then 255 else 0)
    \<and> snd (applyCannyEdgeFallback mem inp w h out) ! (i * 4 + 1)
        = (if 50 < fallback_gradient mem inp w h ! i then 255 else 0)
    \<and> snd (applyCannyEdgeFallback mem inp w h out) ! (i * 4 + 2)
        = (if 50 < fallback_gradient mem inp w h ! i then 255 else 0)
    \<and> snd (applyCannyEdgeFallback mem inp w h out) ! (i * 4 + 3) = 255
    \<and> (snd (applyCannyEdgeFallback mem inp w h out) ! (i * 4) = 0
         \<or> snd (applyCannyEdgeFallback mem inp w h out) ! (i * 4) = 255)"
  using edge_fallback_pixel [OF assms, of 0] edge_fallback_pixel [OF assms, of 1]
    edge_fallback_pixel [OF assms, of 2] edge_fallback_pixel [OF assms, of 3]
  by (simp add: applyCannyEdgeFallback_eq)

text \<open>
  Claim C10. For a frame that fits with \<open>width \<le> 2\<close> or \<open>height \<le> 2\<close> the Sobel loops
  have no iteration, the gradient map is what \<open>std::memset\<close> made of it, zero everywhere,
  and every output pixel of \<open>applyCannyEdgeFallback\<close> is \<open>(0, 0, 0, 255)\<close>, whatever the two
  freshly allocated buffers \<open>grayData\<close> and \<open>edgeData\<close> held when they were handed out.
\<close>

theorem edge_fallback_small_frame_black:
  assumes "frame_fits w h inp out" and "w \<le> 2 \<or> h \<le> 2" and "i < nat (w * h)"
  shows "snd (applyCannyEdgeFallback mem inp w h out) ! (i * 4) = 0
    \<and> snd (applyCannyEdgeFallback mem inp w h out) ! (i * 4 + 1) = 0
    \<and> snd (applyCannyEdgeFallback mem inp w h out) ! (i * 4 + 2) = 0
    \<and> snd (applyCannyEdgeFallback mem inp w h out) ! (i * 4 + 3) = 255"
proof -
  have "fallback_gradient mem inp w h = replicate (nat (w * h)) 0"
    by (simp add: fallback_gradient_eq [OF assms(1)] sobel_loop_small [OF assms(2)])
  then have z: "fallback_gradient mem inp w h ! i = 0" using assms(3) by simp
  show ?thesis
    using edge_fallback_pixel [OF assms(1,3), of 0] edge_fallback_pixel [OF assms(1,3), of 1]
      edge_fallback_pixel [OF assms(1,3), of 2] edge_fallback_pixel [OF assms(1,3), of 3]
    by (simp add: z)
qed

section \<open>Single-precision rounding\<close>

lemma f32_find_exp_eq:
  assumes "e \<le> int n - 126" "- 126 \<le> e" "2 powi e \<le> q" "q < 2 powi (e + 1)"
  shows "f32_find_exp n q = e"
  using assms
proof (induction n)
  case 0
  then show ?case by simp
next
  case (Suc n)
  show ?case
  proof (cases "e = int (Suc n) - 126")
    case True
    then show ?thesis using Suc.prems(3) by simp
  next
    case False
    then have lt: "e + 1 \<le> int (Suc n) - 126" using Suc.prems(1) by simp
    have "(2::rat) powi (e + 1) \<le> 2 powi (int (Suc n) - 126)"
      by (rule power_int_increasing [OF lt]) simp
    then have "\<not> 2 powi (int (Suc n) - 126) \<le> q" using Suc.prems(4) by simp
    moreover have "f32_find_exp n q = e"
      by (rule Suc.IH) (use Suc.prems lt in simp_all)
    ultimately show ?thesis by simp
  qed
qed

lemma f32_exponent_eq:
  assumes "- 126 \<le> e" "e \<le> 127" "2 powi e \<le> q" "q < 2 powi (e + 1)"
  shows "f32_exponent q = e"
  unfolding f32_exponent_def by (rule f32_find_exp_eq) (use assms in simp_all)

lemma f32_round_eval:
  assumes "- 126 \<le> e" "e \<le> 127" "2 powi e \<le> q" "q < 2 powi (e + 1)"
  shows "f32_round q = of_int (round_even (q / 2 powi (e - 23))) * 2 powi (e - 23)"
  by (simp add: f32_round_def Let_def f32_exponent_eq [OF assms])

lemma round_even_zero: "round_even 0 = 0"
  by (simp add: round_even_def)

lemma f32_round_zero: "f32_round 0 = 0"
  by (simp add: f32_round_def Let_def round_even_zero)

lemma floor_rat_numeral:
  "\<lfloor>(numeral a / numeral b :: rat)\<rfloor> = numeral a div numeral b"
  using floor_divide_of_int_eq [of "numeral a" "numeral b", where ?'a = rat] by simp

lemma round_even_numeral:
  "round_even (numeral a / numeral b) =
     (let f = numeral a div numeral b; r = (numeral a / numeral b :: rat) - of_int f in
        if r < 1 / 2 then f else if 1 / 2 < r then f + 1 else if even f then f else f + 1)"
  unfolding round_even_def floor_rat_numeral by (rule refl)

lemma round_even_of_int: "round_even (of_int k) = k"
  by (simp add: round_even_def)

lemma round_even_int_numeral: "round_even (numeral a) = numeral a"
  using round_even_of_int [of "numeral a"] by simp

lemma lit_0_299f_eq: "lit_0_299f = 10032775 / 33554432"
  unfolding lit_0_299f_def
  by (subst f32_round_eval [of "- 2"]) (simp_all add: round_even_numeral Let_def)

lemma lit_0_587f_eq: "lit_0_587f = 4924113 / 8388608"
  unfolding lit_0_587f_def
  by (subst f32_round_eval [of "- 1"]) (simp_all add: round_even_numeral Let_def)

lemma lit_0_114f_eq: "lit_0_114f = 15300821 / 134217728"
  unfolding lit_0_114f_def
  by (subst f32_round_eval [of "- 4"]) (simp_all add: round_even_numeral Let_def)

section \<open>The luminance of some pixels\<close>

lemma rgbaToGray_154_0_61: "rgbaToGray 154 0 61 = 52"
proof -
  have r1: "f32_round (772523675 / 16777216) = 6035341 / 131072"
    by (subst f32_round_eval [of 5]) (simp_all add: round_even_numeral round_even_int_numeral Let_def)
  have r2: "f32_round 0 = 0" by (rule f32_round_zero)
  have r3: "f32_round (6035341 / 131072) = 6035341 / 131072"
    by (subst f32_round_eval [of 5]) (simp_all add: round_even_numeral round_even_int_numeral Let_def)
  have r4: "f32_round (933350081 / 134217728) = 14583595 / 2097152"
    by (subst f32_round_eval [of 2]) (simp_all add: round_even_numeral round_even_int_numeral Let_def)
  have r5: "f32_round (111149051 / 2097152) = 13893631 / 262144"
    by (subst f32_round_eval [of 5]) (simp_all add: round_even_numeral round_even_int_numeral Let_def)
  have p1: "f32_mul lit_0_299f (of_int (uint (154::u8))) = 6035341 / 131072"
    by (simp add: f32_mul_def lit_0_299f_eq r1)
  have p2: "f32_mul lit_0_587f (of_int (uint (0::u8))) = 0"
    by (simp add: f32_mul_def lit_0_587f_eq r2)
  have p3: "f32_mul lit_0_114f (of_int (uint (61::u8))) = 14583595 / 2097152"
    by (simp add: f32_mul_def lit_0_114f_eq r4)
  have s1: "f32_add (6035341 / 131072) (0) = 6035341 / 131072"
    by (simp add: f32_add_def r3)
  have s2: "f32_add (6035341 / 131072) (14583595 / 2097152) = 13893631 / 262144"
    by (simp add: f32_add_def r5)
  show ?thesis
    unfolding rgbaToGray_def p1 p2 s1 p3 s2 by (simp add: floor_rat_numeral)
qed

lemma rgbaToGray_255_255_255: "rgbaToGray 255 255 255 = 255"
proof -
  have r1: "f32_round (2558357625 / 33554432) = 624599 / 8192"
    by (subst f32_round_eval [of 6]) (simp_all add: round_even_numeral round_even_int_numeral Let_def)
  have r2: "f32_round (1255648815 / 8388608) = 2452439 / 16384"
    by (subst f32_round_eval [of 7]) (simp_all add: round_even_numeral round_even_int_numeral Let_def)
  have r3: "f32_round (3701637 / 16384) = 3701637 / 16384"
    by (subst f32_round_eval [of 7]) (simp_all add: round_even_numeral round_even_int_numeral Let_def)
  have r4: "f32_round (3901709355 / 134217728) = 3810263 / 131072"
    by (subst f32_round_eval [of 4]) (simp_all add: round_even_numeral round_even_int_numeral Let_def)
  have r5: "f32_round (33423359 / 131072) = 255"
    by (subst f32_round_eval [of 7]) (simp_all add: round_even_numeral round_even_int_numeral Let_def)
  have p1: "f32_mul lit_0_299f (of_int (uint (255::u8))) = 624599 / 8192"
    by (simp add: f32_mul_def lit_0_299f_eq r1)
  have p2: "f32_mul lit_0_587f (of_int (uint (255::u8))) = 2452439 / 16384"
    by (simp add: f32_mul_def lit_0_587f_eq r2)
  have p3: "f32_mul lit_0_114f (of_int (uint (255::u8))) = 3810263 / 131072"
    by (simp add: f32_mul_def lit_0_114f_eq r4)
  have s1: "f32_add (624599 / 8192) (2452439 / 16384) = 3701637 / 16384"
    by (simp add: f32_add_def r3)
  have s2: "f32_add (3701637 / 16384) (3810263 / 131072) = 255"
    by (simp add: f32_add_def r5)
  show ?thesis
    unfolding rgbaToGray_def p1 p2 s1 p3 s2 by (simp add: floor_rat_numeral)
qed

lemma rgbaToGray_0_0_0: "rgbaToGray 0 0 0 = 0"
proof -
  have r1: "f32_round 0 = 0" by (rule f32_round_zero)
  have r2: "f32_round 0 = 0" by (rule f32_round_zero)
  have r3: "f32_round 0 = 0" by (rule f32_round_zero)
  have r4: "f32_round 0 = 0" by (rule f32_round_zero)
  have r5: "f32_round 0 = 0" by (rule f32_round_zero)
  have p1: "f32_mul lit_0_299f (of_int (uint (0::u8))) = 0"
    by (simp add: f32_mul_def lit_0_299f_eq r1)
  have p2: "f32_mul lit_0_587f (of_int (uint (0::u8))) = 0"
    by (simp add: f32_mul_def lit_0_587f_eq r2)
  have p3: "f32_mul lit_0_114f (of_int (uint (0::u8))) = 0"
    by (simp add: f32_mul_def lit_0_114f_eq r4)
  have s1: "f32_add (0) (0) = 0"
    by (simp add: f32_add_def r3)
  have s2: "f32_add (0) (0) = 0"
    by (simp add: f32_add_def r5)
  show ?thesis
    unfolding rgbaToGray_def p1 p2 s1 p3 s2 by (simp add: floor_rat_numeral)
qed

section \<open>The rounding error of the luminance\<close>

lemma round_even_err: "\<bar>of_int (round_even t) - t\<bar> \<le> 1 / 2"
proof -
  have "of_int \<lfloor>t\<rfloor> \<le> t" "t < of_int \<lfloor>t\<rfloor> + 1" by linarith+
  then show ?thesis by (auto simp: round_even_def Let_def)
qed

lemma round_even_nonneg: "0 \<le> t \<Longrightarrow> 0 \<le> round_even t"
  by (auto simp: round_even_def Let_def)

lemma f32_find_exp_le_7:
  assumes "q < 2 powi 8"
  shows "f32_find_exp n q \<le> 7"
proof (induction n)
  case 0
  then show ?case by simp
next
  case (Suc n)
  show ?case
  proof (cases "2 powi (int (Suc n) - 126) \<le> q")
    case True
    then have "(2::rat) powi (int (Suc n) - 126) < 2 powi 8" using assms by simp
    then have "int (Suc n) - 126 < 8" by (rule power_int_le_imp_less_exp [rotated]) simp_all
    then show ?thesis using True by simp
  next
    case False
    then show ?thesis using Suc.IH by simp
  qed
qed

lemma f32_round_err:
  assumes "q < 256"
  shows "\<bar>f32_round q - q\<bar> \<le> 1 / 131072"
proof -
  define ulp :: rat where "ulp = 2 powi (f32_exponent q - 23)"
  have "f32_exponent q \<le> 7"
    unfolding f32_exponent_def by (rule f32_find_exp_le_7) (use assms in simp)
  then have "ulp \<le> 2 powi (- 16)"
    unfolding ulp_def by (intro power_int_increasing) simp_all
  then have small: "ulp \<le> 1 / 65536" by simp
  have pos: "0 < ulp" by (simp add: ulp_def)
  have "f32_round q - q = ulp * (of_int (round_even (q / ulp)) - q / ulp)"
    using pos by (simp add: f32_round_def Let_def ulp_def [symmetric] algebra_simps)
  then have "\<bar>f32_round q - q\<bar> = ulp * \<bar>of_int (round_even (q / ulp)) - q / ulp\<bar>"
    using pos by (simp add: abs_mult)
  also have "\<dots> \<le> ulp * (1 / 2)"
    by (rule mult_left_mono [OF round_even_err]) (use pos in simp)
  also have "\<dots> \<le> 1 / 131072" using small by simp
  finally show ?thesis .
qed

lemma f32_round_nonneg:
  assumes "0 \<le> q"
  shows "0 \<le> f32_round q"
proof -
  have "0 \<le> q / 2 powi (f32_exponent q - 23)" using assms by simp
  then have "0 \<le> round_even (q / 2 powi (f32_exponent q - 23))" by (rule round_even_nonneg)
  then show ?thesis by (simp add: f32_round_def Let_def)
qed


lemma uint_u8_range: "0 \<le> rat_of_int (uint (r::u8))" "rat_of_int (uint (r::u8)) \<le> 255"
proof -
  have "uint r < 2 ^ 8" using uint_bounded [of r] by simp
  then have "uint r \<le> 255" by simp
  then show "rat_of_int (uint r) \<le> 255" by (metis of_int_le_iff of_int_numeral)
  show "0 \<le> rat_of_int (uint r)" by (simp del: of_int_uint)
qed

lemma f32_luminance_err:
  fixes r g b :: u8
  defines "R \<equiv> rat_of_int (uint r)" and "G \<equiv> rat_of_int (uint g)"
    and "B \<equiv> rat_of_int (uint b)"
  defines "s \<equiv> f32_add (f32_add (f32_mul lit_0_299f R) (f32_mul lit_0_587f G))
                      (f32_mul lit_0_114f B)"
  shows "299 / 1000 * R + 587 / 1000 * G + 114 / 1000 * B - 1 / 10000 \<le> s"
    and "s \<le> 299 / 1000 * R + 587 / 1000 * G + 114 / 1000 * B + 1 / 10000"
    and "0 \<le> s"
proof -
  have R: "0 \<le> R" "R \<le> 255" and G: "0 \<le> G" "G \<le> 255" and B: "0 \<le> B" "B \<le> 255"
    unfolding R_def G_def B_def by (rule uint_u8_range)+
  define p1 where "p1 = f32_round (10032775 / 33554432 * R)"
  define p2 where "p2 = f32_round (4924113 / 8388608 * G)"
  define p3 where "p3 = f32_round (15300821 / 134217728 * B)"
  define s1 where "s1 = f32_round (p1 + p2)"
  have s: "s = f32_round (s1 + p3)"
    by (simp add: s_def f32_add_def f32_mul_def lit_0_299f_eq lit_0_587f_eq lit_0_114f_eq
        p1_def p2_def p3_def s1_def)
  have e1: "\<bar>p1 - 10032775 / 33554432 * R\<bar> \<le> 1 / 131072"
    unfolding p1_def by (rule f32_round_err) (use R in linarith)
  have e2: "\<bar>p2 - 4924113 / 8388608 * G\<bar> \<le> 1 / 131072"
    unfolding p2_def by (rule f32_round_err) (use G in linarith)
  have e3: "\<bar>p3 - 15300821 / 134217728 * B\<bar> \<le> 1 / 131072"
    unfolding p3_def by (rule f32_round_err) (use B in linarith)
  have e4: "\<bar>s1 - (p1 + p2)\<bar> \<le> 1 / 131072"
    unfolding s1_def by (rule f32_round_err) (use e1 e2 R G in linarith)
  have e5: "\<bar>s - (s1 + p3)\<bar> \<le> 1 / 131072"
    unfolding s by (rule f32_round_err) (use e1 e2 e3 e4 R G B in linarith)
  show "299 / 1000 * R + 587 / 1000 * G + 114 / 1000 * B - 1 / 10000 \<le> s"
    using e1 e2 e3 e4 e5 R G B by linarith
  show "s \<le> 299 / 1000 * R + 587 / 1000 * G + 114 / 1000 * B + 1 / 10000"
    using e1 e2 e3 e4 e5 R G B by linarith
  have "0 \<le> p1" unfolding p1_def by (rule f32_round_nonneg) (use R in simp)
  moreover have "0 \<le> p2" unfolding p2_def by (rule f32_round_nonneg) (use G in simp)
  moreover have "0 \<le> p3" unfolding p3_def by (rule f32_round_nonneg) (use B in simp)
  ultimately have "0 \<le> s1 + p3"
    using f32_round_nonneg [of "p1 + p2"] by (simp add: s1_def)
  then show "0 \<le> s" unfolding s by (rule f32_round_nonneg)
qed

section \<open>The grayscale fallback\<close>

lemma spec_luminance_div:
  "spec_luminance r g b = (299 * uint r + 587 * uint g + 114 * uint b) div 1000"
proof -
  have "299 / 1000 * rat_of_int (uint r) + 587 / 1000 * rat_of_int (uint g)
          + 114 / 1000 * rat_of_int (uint b)
      = rat_of_int (299 * uint r + 587 * uint g + 114 * uint b) / rat_of_int 1000"
    by (simp del: of_int_uint)
  then show ?thesis
    unfolding spec_luminance_def by (simp only: floor_divide_of_int_eq)
qed

lemma rgbaToGray_near_floor:
  shows "spec_luminance r g b - 1 \<le> uint (rgbaToGray r g b)"
    and "uint (rgbaToGray r g b) \<le> spec_luminance r g b"
    and "\<not> 1000 dvd (299 * uint r + 587 * uint g + 114 * uint b)
         \<Longrightarrow> uint (rgbaToGray r g b) = spec_luminance r g b"
proof -
  define m where "m = 299 * uint r + 587 * uint g + 114 * uint b"
  define k where "k = m div 1000"
  define j where "j = m mod 1000"
  define s where "s = f32_add (f32_add (f32_mul lit_0_299f (rat_of_int (uint r)))
                                 (f32_mul lit_0_587f (rat_of_int (uint g))))
                        (f32_mul lit_0_114f (rat_of_int (uint b)))"
  have spec: "spec_luminance r g b = k" by (simp add: spec_luminance_div m_def k_def)
  have gray: "rgbaToGray r g b = word_of_int \<lfloor>s\<rfloor>" by (simp add: rgbaToGray_def s_def)
  have m: "m = 1000 * k + j" and j: "0 \<le> j" "j \<le> 999" by (simp_all add: k_def j_def)
  have ur: "0 \<le> uint r" "uint r \<le> 255" and ug: "0 \<le> uint g" "uint g \<le> 255"
    and ub: "0 \<le> uint b" "uint b \<le> 255"
    using uint_bounded [of r] uint_bounded [of g] uint_bounded [of b] by simp_all
  have k: "0 \<le> k" "k \<le> 255" using ur ug ub unfolding k_def m_def by linarith+
  have E: "299 / 1000 * rat_of_int (uint r) + 587 / 1000 * rat_of_int (uint g)
          + 114 / 1000 * rat_of_int (uint b) = rat_of_int k + rat_of_int j / 1000"
  proof -
    have "299 / 1000 * rat_of_int (uint r) + 587 / 1000 * rat_of_int (uint g)
          + 114 / 1000 * rat_of_int (uint b) = rat_of_int m / 1000"
      by (simp add: m_def del: of_int_uint)
    also have "\<dots> = rat_of_int k + rat_of_int j / 1000" by (simp add: m)
    finally show ?thesis .
  qed
  have jq: "0 \<le> rat_of_int j" "rat_of_int j \<le> 999" using j by simp_all
  have lo: "rat_of_int k + rat_of_int j / 1000 - 1 / 10000 \<le> s"
    and hi: "s \<le> rat_of_int k + rat_of_int j / 1000 + 1 / 10000" and s0: "0 \<le> s"
    using f32_luminance_err [of r g b] unfolding s_def [symmetric] E by simp_all
  have "rat_of_int (k - 1) \<le> s" using lo jq by simp
  then have fl_lo: "k - 1 \<le> \<lfloor>s\<rfloor>" by (simp only: le_floor_iff)
  have "s < rat_of_int (k + 1)" using hi jq by simp
  then have "\<lfloor>s\<rfloor> < k + 1" by (simp only: floor_less_iff)
  then have fl_hi: "\<lfloor>s\<rfloor> \<le> k" by simp
  have fl0: "0 \<le> \<lfloor>s\<rfloor>" using s0 by simp
  have "\<lfloor>s\<rfloor> mod 256 = \<lfloor>s\<rfloor>"
  proof (rule mod_pos_pos_trivial)
    show "0 \<le> \<lfloor>s\<rfloor>" by (rule fl0)
    show "\<lfloor>s\<rfloor> < 256" using fl_hi k by linarith
  qed
  then have u: "uint (rgbaToGray r g b) = \<lfloor>s\<rfloor>"
    by (simp add: gray uint_word_of_int take_bit_eq_mod)
  show "spec_luminance r g b - 1 \<le> uint (rgbaToGray r g b)" using fl_lo by (simp add: u spec)
  show "uint (rgbaToGray r g b) \<le> spec_luminance r g b" using fl_hi by (simp add: u spec)
  show "uint (rgbaToGray r g b) = spec_luminance r g b"
    if "\<not> 1000 dvd (299 * uint r + 587 * uint g + 114 * uint b)"
  proof -
    from that have "j \<noteq> 0" by (simp add: j_def m_def dvd_eq_mod_eq_0)
    then have "1 \<le> rat_of_int j" using j by simp
    then have "rat_of_int k \<le> s" using lo by simp
    then have "k \<le> \<lfloor>s\<rfloor>" by (simp only: le_floor_iff)
    then show ?thesis using fl_hi by (simp add: u spec)
  qed
qed

lemma gray_fallback_pixel:
  assumes fits: "frame_fits w h inp out" and i: "i < nat (w * h)" and c: "c < 4"
  shows "snd (convertToGrayscaleFallback inp w h out) ! (i * 4 + c)
         = (if c < 3 then rgbaToGray (inp ! (i * 4)) (inp ! (i * 4 + 1)) (inp ! (i * 4 + 2))
            else 255)"
  using pixel_loop_nth [OF frame_pixels(4) [OF fits] i c,
      of "\<lambda>i. rgbaToGray (inp ! (i * 4)) (inp ! (i * 4 + 1)) (inp ! (i * 4 + 2))"]
  by (simp add: convertToGrayscaleFallback_def Let_def frame_pixels(1) [OF fits])

text \<open>
  Claim C2. The luminance is computed in single precision, so the byte written is not
  always the floor of the exact weighted sum. For a frame that fits and every pixel,
  \<open>convertToGrayscaleFallback\<close> writes \<open>R = G = B = rgbaToGray R\<^sub>0 G\<^sub>0 B\<^sub>0\<close> and alpha \<open>255\<close>,
  where \<open>rgbaToGray\<close> is the binary32 value of \<open>0.299f * R\<^sub>0 + 0.587f * G\<^sub>0 + 0.114f * B\<^sub>0\<close>
  truncated; that byte is \<open>\<lfloor>0.299 R\<^sub>0 + 0.587 G\<^sub>0 + 0.114 B\<^sub>0\<rfloor>\<close> or one less, and it is the
  floor itself whenever the exact weighted sum is not a whole number.
\<close>

theorem grayscale_fallback_pixels:
  assumes "frame_fits w h inp out" and "i < nat (w * h)"
  shows "fst (convertToGrayscaleFallback inp w h out)
    \<and> snd (convertToGrayscaleFallback inp w h out) ! (i * 4)
        = rgbaToGray (inp ! (i * 4)) (inp ! (i * 4 + 1)) (inp ! (i * 4 + 2))
    \<and> snd (convertToGrayscaleFallback inp w h out) ! (i * 4 + 1)
        = rgbaToGray (inp ! (i * 4)) (inp ! (i * 4 + 1)) (inp ! (i * 4 + 2))
    \<and> snd (convertToGrayscaleFallback inp w h out) ! (i * 4 + 2)
        = rgbaToGray (inp ! (i * 4)) (inp ! (i * 4 + 1)) (inp ! (i * 4 + 2))
    \<and> snd (convertToGrayscaleFallback inp w h out) ! (i * 4 + 3) = 255
    \<and> spec_luminance (inp ! (i * 4)) (inp ! (i * 4 + 1)) (inp ! (i * 4 + 2)) - 1
        \<le> uint (rgbaToGray (inp ! (i * 4)) (inp ! (i * 4 + 1)) (inp ! (i * 4 + 2)))
    \<and> uint (rgbaToGray (inp ! (i * 4)) (inp ! (i * 4 + 1)) (inp ! (i * 4 + 2)))
        \<le> spec_luminance (inp ! (i * 4)) (inp ! (i * 4 + 1)) (inp ! (i * 4 + 2))
    \<and> (\<not> 1000 dvd (299 * uint (inp ! (i * 4)) + 587 * uint (inp ! (i * 4 + 1))
                       + 114 * uint (inp ! (i * 4 + 2)))
         \<longrightarrow> uint (rgbaToGray (inp ! (i * 4)) (inp ! (i * 4 + 1)) (inp ! (i * 4 + 2)))
             = spec_luminance (inp ! (i * 4)) (inp ! (i * 4 + 1)) (inp ! (i * 4 + 2)))"
  using gray_fallback_pixel [OF assms, of 0] gray_fallback_pixel [OF assms, of 1]
    gray_fallback_pixel [OF assms, of 2] gray_fallback_pixel [OF assms, of 3]
    rgbaToGray_near_floor [of "inp ! (i * 4)" "inp ! (i * 4 + 1)" "inp ! (i * 4 + 2)"]
  by (simp add: convertToGrayscaleFallback_def)

theorem grayscale_fallback_pixels_witness:
  "snd (convertToGrayscaleFallback [255, 255, 255, 7] 1 1 [0, 0, 0, 0]) ! (0 * 4) = 255
   \<and> snd (convertToGrayscaleFallback [255, 255, 255, 7] 1 1 [0, 0, 0, 0]) ! (0 * 4 + 1) = 255
   \<and> snd (convertToGrayscaleFallback [255, 255, 255, 7] 1 1 [0, 0, 0, 0]) ! (0 * 4 + 2) = 255
   \<and> snd (convertToGrayscaleFallback [255, 255, 255, 7] 1 1 [0, 0, 0, 0]) ! (0 * 4 + 3) = 255"
proof -
  have 1: "frame_fits 1 1 [255, 255, 255, 7] [0, 0, 0, 0]"
    by (simp add: frame_fits_def INT_MAX_def)
  have 2: "0 < nat (1 * 1)" by simp
  show ?thesis
    using grayscale_fallback_pixels [OF 1 2] by (simp add: rgbaToGray_255_255_255)
qed

theorem grayscale_floor_counterexample:
  "snd (convertToGrayscaleFallback [154, 0, 61, 255] 1 1 [0, 0, 0, 0]) = [52, 52, 52, 255]
   \<and> spec_luminance 154 0 61 = 53"
  by (simp add: convertToGrayscaleFallback_def int32_def write_pixel_def Let_def
      rgbaToGray_154_0_61 spec_luminance_div)

section \<open>Edge detection on concrete frames\<close>

theorem edge_fallback_small_frame_black_witness:
  "snd (applyCannyEdgeFallback junk_memory [10, 20, 30, 40, 250, 240, 230, 220] 2 1 (replicate 8 7)) ! (1 * 4) = 0
   \<and> snd (applyCannyEdgeFallback junk_memory [10, 20, 30, 40, 250, 240, 230, 220] 2 1 (replicate 8 7)) ! (1 * 4 + 1) = 0
   \<and> snd (applyCannyEdgeFallback junk_memory [10, 20, 30, 40, 250, 240, 230, 220] 2 1 (replicate 8 7)) ! (1 * 4 + 2) = 0
   \<and> snd (applyCannyEdgeFallback junk_memory [10, 20, 30, 40, 250, 240, 230, 220] 2 1 (replicate 8 7)) ! (1 * 4 + 3) = 255"
proof -
  have 1: "frame_fits 2 1 [10, 20, 30, 40, 250, 240, 230, 220] (replicate 8 7)"
    by (simp add: frame_fits_def INT_MAX_def)
  have 2: "(2::int) \<le> 2 \<or> (1::int) \<le> 2" by simp
  have 3: "1 < nat (2 * 1)" by simp
  show ?thesis by (rule edge_fallback_small_frame_black [OF 1 2 3])
qed

lemma sqrt_to_int_large:
  assumes "255 * 255 \<le> n"
  shows "255 \<le> sqrt_to_int n"
proof (rule ccontr)
  assume "\<not> 255 \<le> sqrt_to_int n"
  then have s: "sqrt_search 0 (nat n) + 1 \<le> 255" by (simp add: sqrt_to_int_def)
  have "(sqrt_search 0 (nat n) + 1) * (sqrt_search 0 (nat n) + 1) \<le> 255 * 255"
    by (rule mult_mono [OF s s]) simp_all
  moreover have "nat n < (sqrt_search 0 (nat n) + 1) * (sqrt_search 0 (nat n) + 1)"
    using sqrt_search_bounds [of 0 "nat n"] by simp
  ultimately show False using assms by simp
qed

lemma sobel_magnitude_255_255: "sobel_magnitude (255, 255) = 255"
  using sqrt_to_int_large [of "255 * 255 + 255 * 255"] by (simp add: sobel_magnitude_def)

text \<open>A 3x3 frame that is black but for a white pixel in the last row and column.\<close>

lemma corner_frame_gray:
  assumes "k < 9" "length gd = 9"
  shows "gray_loop (replicate 32 0 @ [255, 255, 255, 255]) 9 gd ! k
         = (if k = 8 then 255 else 0)"
proof -
  have "gray_loop (replicate 32 0 @ [255, 255, 255, 255]) 9 gd ! k
      = rgbaToGray ((replicate 32 0 @ [255, 255, 255, 255]) ! (k * 4))
          ((replicate 32 0 @ [255, 255, 255, 255]) ! (k * 4 + 1))
          ((replicate 32 0 @ [255, 255, 255, 255]) ! (k * 4 + 2))"
    by (rule gray_loop_nth) (use assms in simp_all)
  also have "\<dots> = (if k = 8 then 255 else 0)"
    using assms
    by (auto simp: nth_append rgbaToGray_0_0_0 rgbaToGray_255_255_255)
  finally show ?thesis .
qed

lemma corner_frame_gradient:
  "fallback_gradient junk_memory (replicate 32 0 @ [255, 255, 255, 255]) 3 3 ! 4 = 255"
proof -
  let ?inp = "replicate 32 0 @ [255, 255, 255, 255] :: u8 list"
  let ?G = "gray_loop ?inp 9 (new_array (freshGray junk_memory) 9)"
  have fits: "frame_fits 3 3 ?inp (replicate 36 0)"
    by (simp add: frame_fits_def INT_MAX_def)
  have at: "gray_at ?G 3 x y = (if nat (y * 3 + x) = 8 then 255 else 0)"
    if "nat (y * 3 + x) < 9" for x y
    using corner_frame_gray [OF that length_new_array] by (simp add: gray_at_def)
  have gx: "spec_sobel_gx ?G 3 1 1 = 255"
    unfolding spec_sobel_gx_def by (simp add: at)
  have gy: "spec_sobel_gy ?G 3 1 1 = 255"
    unfolding spec_sobel_gy_def by (simp add: at)
  have "fallback_gradient junk_memory ?inp 3 3 ! nat (1 * 3 + 1)
      = sobel_loop ?G 3 3 (replicate 9 0) ! nat (1 * 3 + 1)"
    by (simp add: fallback_gradient_eq [OF fits])
  also have "\<dots> = word_of_int (sobel_magnitude (sobel_convolve ?G 3 1 1))"
    by (rule sobel_loop_nth) simp_all
  also have "\<dots> = word_of_int (sobel_magnitude (255, 255))"
    by (simp only: sobel_convolve_spec gx gy)
  also have "\<dots> = 255" by (simp only: sobel_magnitude_255_255) simp
  finally show ?thesis by simp
qed

theorem edge_fallback_binary_witness:
  "snd (applyCannyEdgeFallback junk_memory (replicate 32 0 @ [255, 255, 255, 255]) 3 3 (replicate 36 0)) ! (4 * 4) = 255
   \<and> snd (applyCannyEdgeFallback junk_memory (replicate 32 0 @ [255, 255, 255, 255]) 3 3 (replicate 36 0)) ! (4 * 4 + 1) = 255
   \<and> snd (applyCannyEdgeFallback junk_memory (replicate 32 0 @ [255, 255, 255, 255]) 3 3 (replicate 36 0)) ! (4 * 4 + 2) = 255
   \<and> snd (applyCannyEdgeFallback junk_memory (replicate 32 0 @ [255, 255, 255, 255]) 3 3 (replicate 36 0)) ! (4 * 4 + 3) = 255"
proof -
  have 1: "frame_fits 3 3 (replicate 32 0 @ [255, 255, 255, 255]) (replicate 36 0)"
    by (simp add: frame_fits_def INT_MAX_def)
  have 2: "4 < nat (3 * 3)" by simp
  show ?thesis
    using edge_fallback_binary [OF 1 2] by (simp only: corner_frame_gradient) simp
qed

text \<open>
  When the accelerated path is not taken, \<open>processFrame\<close> in the modes \<open>MODE_EDGE\<close> and
  \<open>MODE_GRAYSCALE\<close> leaves in the output buffer what the two fallbacks write.
\<close>

lemma processFrame_edge_is_fallback:
  assumes "mInitialized p" "0 < w" "0 < h" "\<not> (HAVE_OPENCV cv \<and> mOpenCVAvailable p)"
  shows "processFrame cv mem p (Some inp) w h MODE_EDGE (Some out) startTime endTime
     = (\<lparr>processingTimeMs = endTime - startTime, metricsWidth = w, metricsHeight = h,
          metricsMode = MODE_EDGE, success = True\<rparr>,
        Some (snd (applyCannyEdgeFallback mem inp w h out)),
        updateStatistics (endTime - startTime) p)"
  using assms(4)
  by (auto simp: processFrame_dispatch [OF assms(1,2,3)] Let_def MODE_EDGE_def MODE_RAW_def
      applyCannyEdge_def applyCannyEdgeFallback_eq)

lemma processFrame_grayscale_is_fallback:
  assumes "mInitialized p" "0 < w" "0 < h" "\<not> (HAVE_OPENCV cv \<and> mOpenCVAvailable p)"
  shows "processFrame cv mem p (Some inp) w h MODE_GRAYSCALE (Some out) startTime endTime
     = (\<lparr>processingTimeMs = endTime - startTime, metricsWidth = w, metricsHeight = h,
          metricsMode = MODE_GRAYSCALE, success = True\<rparr>,
        Some (snd (convertToGrayscaleFallback inp w h out)),
        updateStatistics (endTime - startTime) p)"
  using assms(4)
  by (auto simp: processFrame_dispatch [OF assms(1,2,3)] Let_def MODE_EDGE_def MODE_RAW_def
      MODE_GRAYSCALE_def convertToGrayscale_def convertToGrayscaleFallback_def)

text \<open>
  Claim C9. When the accelerated path is not taken (the build has no OpenCV, or the
  processor found it unavailable), \<open>applyCannyEdge\<close> is \<open>applyCannyEdgeFallback\<close>, which
  takes no threshold: for any two threshold pairs stored with \<open>setCannyThresholds\<close> the
  edge output, and the output buffer of \<open>processFrame\<close> in mode \<open>MODE_EDGE\<close>, are the same.
  \<open>setCannyThresholds\<close> stores the two thresholds and changes no other field.
\<close>

theorem canny_thresholds_not_used_by_fallback:
  assumes "\<not> (HAVE_OPENCV cv \<and> mOpenCVAvailable p)"
  shows "applyCannyEdge cv mem (setCannyThresholds lo hi p) inp w h out
           = applyCannyEdgeFallback mem inp w h out
    \<and> applyCannyEdge cv mem (setCannyThresholds lo hi p) inp w h out
        = applyCannyEdge cv mem (setCannyThresholds lo' hi' p) inp w h out
    \<and> fst (snd (processFrame cv mem (setCannyThresholds lo hi p) (Some inp) w h MODE_EDGE (Some out) startTime endTime))
        = fst (snd (processFrame cv mem (setCannyThresholds lo' hi' p) (Some inp) w h MODE_EDGE (Some out) startTime endTime))
    \<and> mCannyLowThreshold (setCannyThresholds lo hi p) = lo
    \<and> mCannyHighThreshold (setCannyThresholds lo hi p) = hi
    \<and> mInitialized (setCannyThresholds lo hi p) = mInitialized p
    \<and> mOpenCVAvailable (setCannyThresholds lo hi p) = mOpenCVAvailable p
    \<and> mCannyApertureSize (setCannyThresholds lo hi p) = mCannyApertureSize p
    \<and> mTotalFramesProcessed (setCannyThresholds lo hi p) = mTotalFramesProcessed p
    \<and> mTotalProcessingTimeMs (setCannyThresholds lo hi p) = mTotalProcessingTimeMs p
    \<and> mLastProcessingTimeMs (setCannyThresholds lo hi p) = mLastProcessingTimeMs p"
proof -
  have edge: "applyCannyEdge cv mem (setCannyThresholds a b p) inp w h out
      = applyCannyEdgeFallback mem inp w h out" for a b
    using assms by (auto simp: applyCannyEdge_def setCannyThresholds_def)
  have frame: "fst (snd (processFrame cv mem (setCannyThresholds a b p) (Some inp) w h MODE_EDGE
        (Some out) startTime endTime))
      = (if mInitialized p \<and> 0 < w \<and> 0 < h
         then Some (snd (applyCannyEdgeFallback mem inp w h out)) else Some out)" for a b
    by (simp add: processFrame_def Let_def edge MODE_EDGE_def MODE_RAW_def split_def)
      (simp add: setCannyThresholds_def)
  show ?thesis
    by (simp add: edge frame) (simp add: setCannyThresholds_def)
qed

theorem canny_thresholds_not_used_by_fallback_witness:
  "applyCannyEdge no_opencv junk_memory (setCannyThresholds 10 10 ready_processor) [1, 2, 3, 4] 1 1 [9, 9, 9, 9]
     = applyCannyEdge no_opencv junk_memory (setCannyThresholds 50 150 ready_processor) [1, 2, 3, 4] 1 1 [9, 9, 9, 9]
   \<and> mTotalFramesProcessed (setCannyThresholds 10 10 ready_processor)
       = mTotalFramesProcessed ready_processor"
proof -
  have 1: "\<not> (HAVE_OPENCV no_opencv \<and> mOpenCVAvailable ready_processor)"
    by (simp add: no_opencv_def)
  show ?thesis
    using canny_thresholds_not_used_by_fallback [OF 1, where lo = 10 and hi = 10 and lo' = 50
        and hi' = 150 and inp = "[1, 2, 3, 4]" and w = 1 and h = 1 and out = "[9, 9, 9, 9]"]
    by blast
qed

section \<open>The planar-to-packed conversion\<close>

lemma jbyte_and_0xFF: "sint (b :: u8) AND 255 = uint b"
proof -
  have "sint b AND 255 = take_bit 8 (sint b)"
    using take_bit_eq_mask [of 8 "sint b"] by (simp add: mask_numeral)
  also have "\<dots> = uint b" using uint_sint [of b] by simp
  finally show ?thesis .
qed

lemma clamp255_range: "0 \<le> clamp255 v" "clamp255 v \<le> 255"
  by (simp_all add: clamp255_def)

lemma uint_clamp255: "uint (word_of_int (clamp255 v) :: u8) = clamp255 v"
proof -
  have "clamp255 v mod 256 = clamp255 v"
    using clamp255_range [of v] by (simp add: mod_pos_pos_trivial)
  then show ?thesis by (simp add: uint_word_of_int take_bit_eq_mod)
qed

lemma yuv_step_length:
  "length (yuv_step yData uData vData width ys uvs uvp y x out) = length out"
  by (simp add: yuv_step_def Let_def split_def)

lemma yuv_step_frame:
  assumes "j \<notin> {nat ((y * width + x) * 4), nat ((y * width + x) * 4) + 1,
                 nat ((y * width + x) * 4) + 2, nat ((y * width + x) * 4) + 3}"
  shows "yuv_step yData uData vData width ys uvs uvp y x out ! j = out ! j"
  using assms by (simp add: yuv_step_def Let_def split_def)

lemma yuv_step_nth:
  assumes "nat ((y * width + x) * 4) + 3 < length out" "c < 4"
  shows "yuv_step yData uData vData width ys uvs uvp y x out ! (nat ((y * width + x) * 4) + c)
    = (let (R, G, B) = yuv_pixel (uint (yData ! nat (y * ys + x)))
                         (uint (uData ! nat ((y div 2) * uvs + (x div 2) * uvp)))
                         (uint (vData ! nat ((y div 2) * uvs + (x div 2) * uvp)))
       in [word_of_int R, word_of_int G, word_of_int B, 255] ! c)"
proof -
  from assms(2) consider "c = 0" | "c = 1" | "c = 2" | "c = 3" by linarith
  then show ?thesis
    using assms(1)
    by cases (simp_all add: yuv_step_def Let_def split_def jbyte_and_0xFF)
qed


lemma cell_index:
  fixes x y w h :: int
  assumes "0 \<le> x" "x < w" "0 \<le> y" "y < h"
  shows "0 \<le> y * w + x" and "y * w + x < w * h"
proof -
  have w: "0 \<le> w" using assms by simp
  have "0 \<le> y * w" using assms(3) w by simp
  then show "0 \<le> y * w + x" using assms(1) by simp
  have "y * w \<le> (h - 1) * w" by (rule mult_right_mono) (use assms w in simp_all)
  then have "y * w + x \<le> h * w - w + (w - 1)" using assms(2) by (simp add: algebra_simps)
  then show "y * w + x < w * h" by (simp add: algebra_simps)
qed

lemma block_bound:
  fixes n m :: int
  assumes "0 \<le> n" "n < m" "nat (m * 4) \<le> L"
  shows "nat (n * 4) + 3 < L"
  using assms by linarith

lemma yuv_loop_flat:
  "fold (\<lambda>y. fold (\<lambda>x. yuv_step yData uData vData width ys uvs uvp y x) xs) yl out
     = fold (\<lambda>a. yuv_step yData uData vData width ys uvs uvp (fst a) (snd a))
         (List.product yl xs) out"
  by (simp add: fold_nested split_def)

lemma yuv_loop_length:
  "length (fold (\<lambda>a. yuv_step yData uData vData width ys uvs uvp (fst a) (snd a)) cells out)
     = length out"
  by (rule fold_inv [where P = "\<lambda>b. length b = length out"]) (simp_all add: yuv_step_length)

lemma yuv_loop_nth:
  assumes x: "0 \<le> x" "x < width" and y: "0 \<le> y" "y < height"
    and len: "nat (width * height * 4) \<le> length out" and c: "c < 4"
  shows "fold (\<lambda>y. fold (\<lambda>x. yuv_step yData uData vData width ys uvs uvp y x)
                 [0..width - 1]) [0..height - 1] out ! (nat ((y * width + x) * 4) + c)
    = (let (R, G, B) = yuv_pixel (uint (yData ! nat (y * ys + x)))
                         (uint (uData ! nat ((y div 2) * uvs + (x div 2) * uvp)))
                         (uint (vData ! nat ((y div 2) * uvs + (x div 2) * uvp)))
       in [word_of_int R, word_of_int G, word_of_int B, 255] ! c)"
proof -
  let ?cells = "List.product [0..height - 1] [0..width - 1]"
  let ?k = "\<lambda>a :: int \<times> int. nat ((fst a * width + snd a) * 4)"
  let ?W = "\<lambda>a. {?k a, ?k a + 1, ?k a + 2, ?k a + 3}"
  let ?px = "\<lambda>a :: int \<times> int.
     (let (R, G, B) = yuv_pixel (uint (yData ! nat (fst a * ys + snd a)))
                         (uint (uData ! nat ((fst a div 2) * uvs + (snd a div 2) * uvp)))
                         (uint (vData ! nat ((fst a div 2) * uvs + (snd a div 2) * uvp)))
      in [word_of_int R, word_of_int G, word_of_int B, 255 :: u8])"
  let ?v = "\<lambda>a j. ?px a ! (j - ?k a)"
  let ?step = "\<lambda>a. yuv_step yData uData vData width ys uvs uvp (fst a) (snd a)"
  have cell: "0 \<le> snd a \<and> snd a < width \<and> 0 \<le> fst a \<and> fst a < height"
    if "a \<in> set ?cells" for a
  proof -
    obtain p q where "a = (p, q)" by (cases a)
    with that show ?thesis by auto
  qed
  have range: "?k a + 3 < length out" if "a \<in> set ?cells" for a
  proof -
    from cell [OF that] have "0 \<le> fst a * width + snd a" "fst a * width + snd a < width * height"
      using cell_index [of "snd a" width "fst a" height] by simp_all
    then show ?thesis using len by (rule block_bound)
  qed
  have "fold ?step ?cells out ! (?k (y, x) + c) = ?v (y, x) (?k (y, x) + c)"
  proof (rule fold_nth_written [where P = "\<lambda>b. length b = length out" and W = ?W])
    show "(y, x) \<in> set ?cells" using x y by simp
    show "?k (y, x) + c \<in> ?W (y, x)" using c by auto
    show "length out = length out" by simp
  next
    fix a and b :: "u8 list" assume "a \<in> set ?cells" "length b = length out"
    then show "length (?step a b) = length out" by (simp add: yuv_step_length)
  next
    fix a j and b :: "u8 list" assume "a \<in> set ?cells" "j \<notin> ?W a"
    then show "?step a b ! j = b ! j" by (intro yuv_step_frame) simp
  next
    fix a j and b :: "u8 list"
    assume a: "a \<in> set ?cells" and j: "j \<in> ?W a" and b: "length b = length out"
    from j obtain d where d: "d < 4" "j = ?k a + d" by auto
    have r: "?k a + 3 < length b" using range [OF a] b by simp
    show "?step a b ! j = ?v a j"
      unfolding d(2) using yuv_step_nth [OF r d(1), where yData = yData and ys = ys and uData = uData
          and uvs = uvs and uvp = uvp and vData = vData]
      by (simp add: split_def Let_def)
  next
    fix a b assume a: "a \<in> set ?cells" and b: "b \<in> set ?cells" and ne: "a \<noteq> b"
    have pa: "0 \<le> fst a * width + snd a" and pb: "0 \<le> fst b * width + snd b"
      using cell [OF a] cell [OF b] cell_index(1) [of "snd a" width "fst a" height]
        cell_index(1) [of "snd b" width "fst b" height] by simp_all
    have "fst a * width + snd a \<noteq> fst b * width + snd b"
    proof
      assume eq: "fst a * width + snd a = fst b * width + snd b"
      have "fst a = fst b"
        by (rule row_major_inj [OF _ _ _ _ eq]) (use cell [OF a] cell [OF b] in simp_all)
      then have "a = b" using eq by (simp add: prod_eq_iff)
      then show False using ne by simp
    qed
    then show "?W a \<inter> ?W b = {}" using pa pb by auto
  qed
  then show ?thesis by (simp add: yuv_loop_flat split_def Let_def)
qed

lemma clamp255_eq: "clamp255 v = max 0 (min 255 v)"
  by (simp add: clamp255_def)

lemma yuv_pixel_eq:
  "yuv_pixel Y U V =
     (clamp255 (drop_bit 8 (298 * (Y - 16) + 409 * (V - 128) + 128)),
      clamp255 (drop_bit 8 (298 * (Y - 16) - 100 * (U - 128) - 208 * (V - 128) + 128)),
      clamp255 (drop_bit 8 (298 * (Y - 16) + 516 * (U - 128) + 128)))"
  by (simp add: yuv_pixel_def Let_def)

lemma yuv_pixel_white: "yuv_pixel 235 128 128 = (255, 255, 255)"
  by (simp add: yuv_pixel_eq clamp255_def drop_bit_eq_div)

text \<open>
  Claim C7. When the planar source fits and all four buffers are present, the conversion
  returns the output buffer with, at every pixel \<open>(x, y)\<close>, the bytes \<open>R\<close>, \<open>G\<close>, \<open>B\<close> and
  alpha \<open>255\<close> at offset \<open>(y * width + x) * 4\<close>, where \<open>R\<close> is \<open>(298 C + 409 E + 128) >> 8\<close>,
  \<open>G\<close> is \<open>(298 C - 100 D - 208 E + 128) >> 8\<close> and \<open>B\<close> is \<open>(298 C + 516 D + 128) >> 8\<close>, each
  raised to \<open>0\<close> when it is negative and lowered to \<open>255\<close> when it is greater; here
  \<open>C = Y - 16\<close>, \<open>D = U - 128\<close>, \<open>E = V - 128\<close>, \<open>Y\<close> is the luma byte at
  \<open>y * yRowStride + x\<close> and \<open>U\<close>, \<open>V\<close> are the chroma bytes at
  \<open>(y / 2) * uvRowStride + (x / 2) * uvPixelStride\<close>. With \<open>Y = 235\<close>, \<open>U = V = 128\<close> the
  pixel is \<open>(255, 255, 255, 255)\<close>.
\<close>

theorem yuv420ToRgba_pixel:
  assumes fits: "yuv_fits yData uData vData width height yRowStride uvRowStride uvPixelStride outData"
    and x: "0 \<le> x" "x < width" and y: "0 \<le> y" "y < height"
  shows "let Y = uint (yData ! nat (y * yRowStride + x));
             U = uint (uData ! nat ((y div 2) * uvRowStride + (x div 2) * uvPixelStride));
             V = uint (vData ! nat ((y div 2) * uvRowStride + (x div 2) * uvPixelStride));
             C = Y - 16; D = U - 128; E = V - 128;
             result = Java_yuv420ToRgba (Some yData) (Some uData) (Some vData) width height
                        yRowStride uvRowStride uvPixelStride (Some outData);
             k = nat ((y * width + x) * 4)
         in result \<noteq> None \<and> length (the result) = length outData
          \<and> uint (the result ! k) = max 0 (min 255 (drop_bit 8 (298 * C + 409 * E + 128)))
          \<and> uint (the result ! (k + 1)) = max 0 (min 255 (drop_bit 8 (298 * C - 100 * D - 208 * E + 128)))
          \<and> uint (the result ! (k + 2)) = max 0 (min 255 (drop_bit 8 (298 * C + 516 * D + 128)))
          \<and> the result ! (k + 3) = 255
          \<and> (Y = 235 \<and> U = 128 \<and> V = 128 \<longrightarrow>
                the result ! k = 255 \<and> the result ! (k + 1) = 255 \<and> the result ! (k + 2) = 255)"
proof -
  let ?out = "fold (\<lambda>y. fold (\<lambda>x.
                  yuv_step yData uData vData width yRowStride uvRowStride uvPixelStride y x)
                [0..width - 1]) [0..height - 1] outData"
  let ?Y = "uint (yData ! nat (y * yRowStride + x))"
  let ?U = "uint (uData ! nat ((y div 2) * uvRowStride + (x div 2) * uvPixelStride))"
  let ?V = "uint (vData ! nat ((y div 2) * uvRowStride + (x div 2) * uvPixelStride))"
  let ?k = "nat ((y * width + x) * 4)"
  have res: "Java_yuv420ToRgba (Some yData) (Some uData) (Some vData) width height
               yRowStride uvRowStride uvPixelStride (Some outData) = Some ?out"
    by (simp add: Java_yuv420ToRgba_def)
  have len: "nat (width * height * 4) \<le> length outData"
    using fits unfolding yuv_fits_def by linarith
  have length: "length ?out = length outData"
    by (simp add: yuv_loop_flat yuv_loop_length)
  note px = yuv_loop_nth [OF x y len, where yData = yData and ys = yRowStride and uData = uData
      and uvs = uvRowStride and uvp = uvPixelStride and vData = vData]
  have r: "?out ! ?k = word_of_int (clamp255 (drop_bit 8 (298 * (?Y - 16) + 409 * (?V - 128) + 128)))"
    using px [of 0] by (simp add: yuv_pixel_eq)
  have g: "?out ! (?k + 1) = word_of_int (clamp255 (drop_bit 8
             (298 * (?Y - 16) - 100 * (?U - 128) - 208 * (?V - 128) + 128)))"
    using px [of 1] by (simp add: yuv_pixel_eq)
  have b: "?out ! (?k + 2) = word_of_int (clamp255 (drop_bit 8
             (298 * (?Y - 16) + 516 * (?U - 128) + 128)))"
    using px [of 2] by (simp add: yuv_pixel_eq)
  have a: "?out ! (?k + 3) = 255"
    using px [of 3] by (simp add: yuv_pixel_eq)
  have white: "?out ! ?k = 255 \<and> ?out ! (?k + 1) = 255 \<and> ?out ! (?k + 2) = 255"
    if "?Y = 235 \<and> ?U = 128 \<and> ?V = 128"
    using px [of 0] px [of 1] px [of 2] that by (simp add: yuv_pixel_white)
  show ?thesis
    unfolding res Let_def option.sel
    using length white by (simp only: r g b a uint_clamp255) (simp add: clamp255_eq)
qed

text \<open>
  Three pixels in one row: the second has \<open>Y = U = V = 0\<close>, where red and blue are negative
  before the clamp; the last has \<open>Y = U = V = 255\<close>, where they exceed \<open>255\<close>.
\<close>

theorem yuv420ToRgba_pixel_witness:
  "uint (the (Java_yuv420ToRgba (Some [235, 0, 255]) (Some [0, 255]) (Some [0, 255]) 3 1 3 2 1
          (Some (replicate 12 7))) ! 4) = 0
   \<and> uint (the (Java_yuv420ToRgba (Some [235, 0, 255]) (Some [0, 255]) (Some [0, 255]) 3 1 3 2 1
          (Some (replicate 12 7))) ! 5) = 135
   \<and> uint (the (Java_yuv420ToRgba (Some [235, 0, 255]) (Some [0, 255]) (Some [0, 255]) 3 1 3 2 1
          (Some (replicate 12 7))) ! 6) = 0
   \<and> the (Java_yuv420ToRgba (Some [235, 0, 255]) (Some [0, 255]) (Some [0, 255]) 3 1 3 2 1
          (Some (replicate 12 7))) ! 7 = 255
   \<and> uint (the (Java_yuv420ToRgba (Some [235, 0, 255]) (Some [0, 255]) (Some [0, 255]) 3 1 3 2 1
          (Some (replicate 12 7))) ! 8) = 255
   \<and> uint (the (Java_yuv420ToRgba (Some [235, 0, 255]) (Some [0, 255]) (Some [0, 255]) 3 1 3 2 1
          (Some (replicate 12 7))) ! 9) = 125
   \<and> uint (the (Java_yuv420ToRgba (Some [235, 0, 255]) (Some [0, 255]) (Some [0, 255]) 3 1 3 2 1
          (Some (replicate 12 7))) ! 10) = 255
   \<and> the (Java_yuv420ToRgba (Some [235, 0, 255]) (Some [0, 255]) (Some [0, 255]) 3 1 3 2 1
          (Some (replicate 12 7))) ! 11 = 255"
proof -
  have 1: "yuv_fits [235, 0, 255] [0, 255] [0, 255] 3 1 3 2 1 (replicate 12 7)"
    by (auto simp: yuv_fits_def INT_MAX_def)
  have x0: "(0::int) \<le> 1" "(1::int) < 3" and x2: "(0::int) \<le> 2" "(2::int) < 3"
    and y0: "(0::int) \<le> 0" "(0::int) < 1" by simp_all
  show ?thesis
    using yuv420ToRgba_pixel [OF 1 x0 y0] yuv420ToRgba_pixel [OF 1 x2 y0]
    by (simp add: Let_def drop_bit_eq_div )
qed

section \<open>Double-precision rounding and the printed average\<close>

lemma f64_find_exp_eq:
  assumes "e \<le> int n - 1022" "- 1022 \<le> e" "2 powi e \<le> q" "q < 2 powi (e + 1)"
  shows "f64_find_exp n q = e"
  using assms
proof (induction n)
  case 0
  then show ?case by simp
next
  case (Suc n)
  show ?case
  proof (cases "e = int (Suc n) - 1022")
    case True
    then show ?thesis using Suc.prems(3) by simp
  next
    case False
    then have lt: "e + 1 \<le> int (Suc n) - 1022" using Suc.prems(1) by simp
    have "(2::rat) powi (e + 1) \<le> 2 powi (int (Suc n) - 1022)"
      by (rule power_int_increasing [OF lt]) simp
    then have "\<not> 2 powi (int (Suc n) - 1022) \<le> q" using Suc.prems(4) by simp
    moreover have "f64_find_exp n q = e"
      by (rule Suc.IH) (use Suc.prems lt in simp_all)
    ultimately show ?thesis by simp
  qed
qed

lemma f64_round_eval:
  assumes "- 1022 \<le> e" "e \<le> 1023" "2 powi e \<le> q" "q < 2 powi (e + 1)"
  shows "f64_round q = of_int (round_even (q / 2 powi (e - 52))) * 2 powi (e - 52)"
proof -
  have "f64_exponent q = e"
    unfolding f64_exponent_def by (rule f64_find_exp_eq) (use assms in simp_all)
  then show ?thesis by (simp add: f64_round_def Let_def)
qed

lemma f64_round_zero: "f64_round 0 = 0"
  by (simp add: f64_round_def Let_def round_even_zero)

lemma f64_find_exp_bounds:
  assumes "2 powi (- 1022) \<le> q" "q < 2 powi (int n - 1022 + 1)"
  shows "2 powi (f64_find_exp n q) \<le> q \<and> q < 2 powi (f64_find_exp n q + 1)"
  using assms
proof (induction n)
  case 0
  then show ?case by simp
next
  case (Suc n)
  show ?case
  proof (cases "2 powi (int (Suc n) - 1022) \<le> q")
    case True
    then show ?thesis using Suc.prems(2) by simp
  next
    case False
    then have "q < 2 powi (int n - 1022 + 1)" by (simp add: add.commute)
    then show ?thesis using Suc.IH [OF Suc.prems(1)] False by simp
  qed
qed

lemma f64_exponent_bounds:
  assumes "1 / 2 ^ 64 \<le> q" "q < 2 ^ 64"
  shows "2 powi (f64_exponent q) \<le> q" and "q < 2 powi (f64_exponent q + 1)"
proof -
  have "(2::rat) powi (- 1022) \<le> 2 powi (- 64)" by (rule power_int_increasing) simp_all
  then have lo: "2 powi (- 1022) \<le> q" using assms(1) by (simp add: power_int_minus_divide)
  have "(2::rat) powi 64 \<le> 2 powi (int 2045 - 1022 + 1)" by (rule power_int_increasing) simp_all
  then have hi: "q < 2 powi (int 2045 - 1022 + 1)" using assms(2) by simp
  show "2 powi (f64_exponent q) \<le> q" "q < 2 powi (f64_exponent q + 1)"
    using f64_find_exp_bounds [OF lo hi] by (simp_all add: f64_exponent_def)
qed


lemma f64_round_rel_err:
  assumes "1 / 2 ^ 64 \<le> q" "q < 2 ^ 64"
  shows "\<bar>f64_round q - q\<bar> \<le> q / 2 ^ 53"
proof -
  define ulp :: rat where "ulp = 2 powi (f64_exponent q - 52)"
  have le: "2 powi (f64_exponent q) \<le> q" by (rule f64_exponent_bounds(1) [OF assms])
  have pos: "0 < ulp" by (simp add: ulp_def)
  have ulp: "ulp = 2 powi (f64_exponent q) / 2 ^ 52"
    unfolding ulp_def by (subst power_int_diff) simp_all
  have "f64_round q - q = ulp * (of_int (round_even (q / ulp)) - q / ulp)"
    using pos by (simp add: f64_round_def Let_def ulp_def [symmetric] algebra_simps)
  then have "\<bar>f64_round q - q\<bar> = ulp * \<bar>of_int (round_even (q / ulp)) - q / ulp\<bar>"
    using pos by (simp add: abs_mult)
  also have "\<dots> \<le> ulp * (1 / 2)"
    by (rule mult_left_mono [OF round_even_err]) (use pos in simp)
  also have "\<dots> = 2 powi (f64_exponent q) / 2 ^ 53" by (simp add: ulp)
  also have "\<dots> \<le> q / 2 ^ 53" using le by (simp add: divide_right_mono)
  finally show ?thesis .
qed

lemma f64_round_nat_exact:
  assumes "n < 2 ^ 53"
  shows "f64_round (of_nat n) = of_nat n"
proof (cases "n = 0")
  case True
  then show ?thesis by (simp add: f64_round_zero)
next
  case False
  define q :: rat where "q = of_nat n"
  define e where "e = f64_exponent q"
  have q1: "1 \<le> q" using False by (simp add: q_def)
  have "n < 2 ^ 53" by (rule assms)
  then have "rat_of_nat n < rat_of_nat (2 ^ 53)" by (simp only: of_nat_less_iff)
  then have q53: "q < 2 ^ 53" by (simp add: q_def)
  have "1 / 2 ^ 64 \<le> q" "q < 2 ^ 64" using q1 q53 by simp_all
  then have le: "2 powi e \<le> q" unfolding e_def by (rule f64_exponent_bounds(1))
  have "(2::rat) powi e < 2 powi 53" using le q53 by simp
  then have "e < 53" by (rule power_int_le_imp_less_exp [rotated]) simp_all
  then have k: "0 \<le> 52 - e" by simp
  have "(2::rat) powi (e - 52) = inverse (2 powi (52 - e))"
    using power_int_minus [of "2::rat" "52 - e"] by simp
  also have "\<dots> = inverse (2 ^ nat (52 - e))" using k by (simp add: power_int_def)
  finally have ulp: "(2::rat) powi (e - 52) = inverse (2 ^ nat (52 - e))" .
  have "q / 2 powi (e - 52) = rat_of_int (int n * 2 ^ nat (52 - e))"
    by (simp add: ulp q_def divide_inverse)
  then have r: "round_even (q / 2 powi (e - 52)) = int n * 2 ^ nat (52 - e)"
    by (simp only: round_even_of_int)
  have "f64_round q = of_int (round_even (q / 2 powi (e - 52))) * 2 powi (e - 52)"
    by (simp add: f64_round_def Let_def e_def)
  also have "\<dots> = rat_of_int (int n * 2 ^ nat (52 - e)) * inverse (2 ^ nat (52 - e))"
    by (subst r) (simp only: ulp)
  also have "\<dots> = q" by (simp add: q_def)
  finally show ?thesis by (simp add: q_def)
qed

lemma printf_2f_err: "\<bar>printf_2f d - d\<bar> \<le> 1 / 200"
proof -
  have eq: "printf_2f d - d = (of_int (round_even (d * 100)) - d * 100) / 100"
    by (simp add: printf_2f_def field_simps)
  have "\<bar>printf_2f d - d\<bar> = \<bar>of_int (round_even (d * 100)) - d * 100\<bar> / 100"
    unfolding eq abs_divide by simp
  also have "\<dots> \<le> (1 / 2) / 100"
    by (rule divide_right_mono [OF round_even_err]) simp
  finally show ?thesis by simp
qed

lemma printf_2f_zero: "printf_2f 0 = 0"
  by (simp add: printf_2f_def round_even_zero)


lemma getStatistics_average:
  assumes frames: "unat (mTotalFramesProcessed p) = n" and time: "unat (mTotalProcessingTimeMs p) = t"
    and "0 < n" "n < 2 ^ 53" "t < 2 ^ 53"
  shows "statAvgTime (getStatistics p) = printf_2f (f64_round (rat_of_nat t / rat_of_nat n))"
proof -
  have pos: "0 < mTotalFramesProcessed p" using frames assms(3) by (simp add: word_less_nat_alt)
  show ?thesis
    by (simp add: getStatistics_def Let_def pos f64_div_def u64_to_double_def frames time
        f64_round_nat_exact [OF assms(4)] f64_round_nat_exact [OF assms(5)])
qed

lemma printed_average_err:
  assumes "0 < n" "n < 2 ^ 53" "t < 2 ^ 53"
  shows "\<bar>printf_2f (f64_round (rat_of_nat t / rat_of_nat n)) - rat_of_nat t / rat_of_nat n\<bar>
         \<le> 1 / 200 + (rat_of_nat t / rat_of_nat n) / 2 ^ 53"
proof (cases "t = 0")
  case True
  then show ?thesis by (simp add: f64_round_zero printf_2f_zero)
next
  case False
  define q where "q = rat_of_nat t / rat_of_nat n"
  have n: "1 \<le> rat_of_nat n" "rat_of_nat n < 2 ^ 53"
    using assms(1,2) by (simp, metis of_nat_less_iff of_nat_numeral of_nat_power)
  have t: "1 \<le> rat_of_nat t" "rat_of_nat t < 2 ^ 53"
    using False assms(3) by (simp, metis of_nat_less_iff of_nat_numeral of_nat_power)
  have "1 / 2 ^ 64 \<le> 1 / rat_of_nat n"
    using n by (intro divide_left_mono) simp_all
  also have "\<dots> \<le> q" unfolding q_def using t(1) n(1) by (intro divide_right_mono) simp_all
  finally have lo: "1 / 2 ^ 64 \<le> q" .
  have "q \<le> rat_of_nat t / 1"
    unfolding q_def using n(1) t(1) by (intro divide_left_mono) simp_all
  then have hi: "q < 2 ^ 64" using t(2) by simp
  have "\<bar>printf_2f (f64_round q) - q\<bar>
      \<le> \<bar>printf_2f (f64_round q) - f64_round q\<bar> + \<bar>f64_round q - q\<bar>"
    by simp
  also have "\<dots> \<le> 1 / 200 + q / 2 ^ 53"
    by (rule add_mono [OF printf_2f_err f64_round_rel_err [OF lo hi]])
  finally show ?thesis by (simp add: q_def)
qed

lemma run_frames_unat_counters:
  assumes valid: "\<forall>c \<in> set cs. call_valid c \<and> 0 \<le> sint (call_elapsed c)"
    and count: "length cs < 2 ^ 64"
    and total: "(\<Sum>c\<leftarrow>cs. sint (call_elapsed c)) < 2 ^ 64"
  shows "unat (mTotalFramesProcessed
            (run_frames cv mem (snd (initialize cv OpenCVProcessor_new)) cs)) = length cs"
    and "unat (mTotalProcessingTimeMs
            (run_frames cv mem (snd (initialize cv OpenCVProcessor_new)) cs))
         = nat (\<Sum>c\<leftarrow>cs. sint (call_elapsed c))"
proof -
  let ?ini = "snd (initialize cv OpenCVProcessor_new)"
  let ?fin = "run_frames cv mem ?ini cs"
  let ?S = "\<Sum>c\<leftarrow>cs. sint (call_elapsed c)"
  have v: "\<forall>c \<in> set cs. call_valid c" using valid by simp
  have S0: "0 \<le> ?S" using valid by (intro sum_list_nonneg) auto
  note cnt = run_frames_counters [where cs = cs and cv = cv and mem = mem and p = ?ini,
      OF ready_fresh(1) v]
  have frames: "mTotalFramesProcessed ?fin = of_nat (length cs)"
    using cnt by (simp add: ready_fresh)
  have time: "mTotalProcessingTimeMs ?fin = word_of_int ?S"
    using cnt by (simp add: ready_fresh sum_list_word_sint)
  show "unat (mTotalFramesProcessed ?fin) = length cs"
    by (simp add: frames unat_of_nat_64 [OF count])
  show "unat (mTotalProcessingTimeMs ?fin) = nat ?S"
    by (simp add: time unat_word_of_int_64 [OF S0 total])
qed

lemma getStatistics_frames: "statFrames (getStatistics p) = unat (mTotalFramesProcessed p)"
  by (simp add: getStatistics_def Let_def)

lemma printed_4_3: "printf_2f (f64_round (4 / 3)) = 133 / 100"
proof -
  have r: "f64_round (4 / 3) = 6004799503160661 / 4503599627370496"
    by (subst f64_round_eval [of 0]) (simp_all add: round_even_numeral Let_def)
  show ?thesis unfolding printf_2f_def r by (simp add: round_even_numeral Let_def)
qed

lemma printed_5_3: "printf_2f (f64_round (5 / 3)) = 167 / 100"
proof -
  have r: "f64_round (5 / 3) = 7505999378950827 / 4503599627370496"
    by (subst f64_round_eval [of 0]) (simp_all add: round_even_numeral Let_def)
  show ?thesis unfolding printf_2f_def r by (simp add: round_even_numeral Let_def)
qed

text \<open>
  Claim C6. Take a freshly constructed and initialised processor and any sequence of
  \<open>processFrame\<close> calls that pass validation, in any modes, with elapsed times
  \<open>t\<^sub>1 \<dots> t\<^sub>N\<close> that are non-negative (the clock is steady), where \<open>N\<close> and the sum of
  the times fit the 64-bit counters. Every call reports success, and afterwards
  \<open>getStatistics\<close> gives frame count \<open>N\<close> and last time \<open>t\<^sub>N\<close>: each call has been recorded
  exactly once. The average is divided in \<open>double\<close> and printed with two decimals, so it
  is not \<open>(\<Sum> t\<^sub>i) / N\<close> itself: it is \<open>0\<close> when \<open>N = 0\<close>, and when \<open>N\<close> and the sum are
  below \<open>2^53\<close> it is the \<open>double\<close> nearest to \<open>(\<Sum> t\<^sub>i) / N\<close> rounded to hundredths, no
  further from \<open>(\<Sum> t\<^sub>i) / N\<close> than \<open>0.005 + ((\<Sum> t\<^sub>i) / N) / 2^53\<close>.
\<close>

theorem statistics_after_frames:
  assumes valid: "\<forall>c \<in> set cs. call_valid c \<and> 0 \<le> sint (call_elapsed c)"
    and count: "length cs < 2 ^ 64"
    and total: "(\<Sum>c\<leftarrow>cs. sint (call_elapsed c)) < 2 ^ 64"
  shows "(\<forall>k < length cs.
            success (fst (call_frame cv mem
              (run_frames cv mem (snd (initialize cv OpenCVProcessor_new)) (take k cs)) (cs ! k))))
    \<and> statFrames (getStatistics (run_frames cv mem (snd (initialize cv OpenCVProcessor_new)) cs))
        = length cs
    \<and> (cs \<noteq> [] \<longrightarrow>
         statLastTime (getStatistics (run_frames cv mem (snd (initialize cv OpenCVProcessor_new)) cs))
           = sint (call_elapsed (last cs)))
    \<and> (cs = [] \<longrightarrow>
         statAvgTime (getStatistics (run_frames cv mem (snd (initialize cv OpenCVProcessor_new)) cs))
           = 0)
    \<and> (cs \<noteq> [] \<and> length cs < 2 ^ 53 \<and> (\<Sum>c\<leftarrow>cs. sint (call_elapsed c)) < 2 ^ 53 \<longrightarrow>
         statAvgTime (getStatistics (run_frames cv mem (snd (initialize cv OpenCVProcessor_new)) cs))
           = printf_2f (f64_round (rat_of_int (\<Sum>c\<leftarrow>cs. sint (call_elapsed c))
                                     / rat_of_nat (length cs)))
         \<and> \<bar>statAvgTime (getStatistics
                (run_frames cv mem (snd (initialize cv OpenCVProcessor_new)) cs))
              - rat_of_int (\<Sum>c\<leftarrow>cs. sint (call_elapsed c)) / rat_of_nat (length cs)\<bar>
           \<le> 1 / 200
              + (rat_of_int (\<Sum>c\<leftarrow>cs. sint (call_elapsed c)) / rat_of_nat (length cs)) / 2 ^ 53)"
proof -
  let ?ini = "snd (initialize cv OpenCVProcessor_new)"
  let ?fin = "run_frames cv mem ?ini cs"
  let ?S = "\<Sum>c\<leftarrow>cs. sint (call_elapsed c)"
  have v: "\<forall>c \<in> set cs. call_valid c" using valid by simp
  have S0: "0 \<le> ?S" using valid by (intro sum_list_nonneg) auto
  note cnt = run_frames_counters [where cs = cs and cv = cv and mem = mem and p = ?ini,
      OF ready_fresh(1) v]
  have last: "cs \<noteq> [] \<Longrightarrow> mLastProcessingTimeMs ?fin = call_elapsed (last cs)"
    using cnt by simp
  note uf = run_frames_unat_counters(1) [OF valid count total, where cv = cv and mem = mem]
  note ut = run_frames_unat_counters(2) [OF valid count total, where cv = cv and mem = mem]
  have succ: "\<forall>k < length cs.
      success (fst (call_frame cv mem (run_frames cv mem ?ini (take k cs)) (cs ! k)))"
  proof (intro allI impI)
    fix k assume k: "k < length cs"
    have "\<forall>c \<in> set (take k cs). call_valid c" using v by (auto dest: in_set_takeD)
    then have "mInitialized (run_frames cv mem ?ini (take k cs))"
      using run_frames_counters [where cs = "take k cs" and cv = cv and mem = mem and p = ?ini]
      by (simp add: ready_fresh)
    moreover have "call_valid (cs ! k)" using v k by simp
    ultimately show "success (fst (call_frame cv mem (run_frames cv mem ?ini (take k cs)) (cs ! k)))"
      by (rule call_frame_valid(1))
  qed
  have fr: "statFrames (getStatistics ?fin) = length cs"
    by (simp add: getStatistics_def Let_def uf)
  have la: "cs \<noteq> [] \<longrightarrow> statLastTime (getStatistics ?fin) = sint (call_elapsed (last cs))"
    using last by (simp add: getStatistics_def Let_def)
  have zero: "cs = [] \<longrightarrow> statAvgTime (getStatistics ?fin) = 0"
    using uf by (auto simp: getStatistics_def Let_def word_less_nat_alt printf_2f_zero)
  have avg: "statAvgTime (getStatistics ?fin)
        = printf_2f (f64_round (rat_of_int ?S / rat_of_nat (length cs)))
      \<and> \<bar>statAvgTime (getStatistics ?fin) - rat_of_int ?S / rat_of_nat (length cs)\<bar>
          \<le> 1 / 200 + (rat_of_int ?S / rat_of_nat (length cs)) / 2 ^ 53"
    if ne: "cs \<noteq> []" and n53: "length cs < 2 ^ 53" and s53: "?S < 2 ^ 53"
  proof -
    have n0: "0 < length cs" using ne by simp
    have t53: "nat ?S < 2 ^ 53" using s53 S0 by (simp add: nat_less_iff)
    have S: "rat_of_nat (nat ?S) = rat_of_int ?S" using S0 by simp
    have a: "statAvgTime (getStatistics ?fin)
        = printf_2f (f64_round (rat_of_nat (nat ?S) / rat_of_nat (length cs)))"
      by (rule getStatistics_average [OF uf ut n0 n53 t53])
    show ?thesis
      unfolding a using printed_average_err [OF n0 n53 t53] by (simp only: S)
  qed
  show ?thesis using succ fr la zero avg by blast
qed


theorem statistics_after_frames_witness:
  "statFrames (getStatistics (run_frames no_opencv junk_memory (snd (initialize no_opencv OpenCVProcessor_new))
      [(Some [1, 2, 3, 4], 1, 1, 0, Some [0, 0, 0, 0], 100, 101),
       (Some [1, 2, 3, 4], 1, 1, 1, Some [0, 0, 0, 0], 200, 202),
       (Some [1, 2, 3, 4], 1, 1, 9, Some [0, 0, 0, 0], 300, 302)])) = 3
   \<and> statAvgTime (getStatistics (run_frames no_opencv junk_memory (snd (initialize no_opencv OpenCVProcessor_new))
      [(Some [1, 2, 3, 4], 1, 1, 0, Some [0, 0, 0, 0], 100, 101),
       (Some [1, 2, 3, 4], 1, 1, 1, Some [0, 0, 0, 0], 200, 202),
       (Some [1, 2, 3, 4], 1, 1, 9, Some [0, 0, 0, 0], 300, 302)])) = 167 / 100
   \<and> statLastTime (getStatistics (run_frames no_opencv junk_memory (snd (initialize no_opencv OpenCVProcessor_new))
      [(Some [1, 2, 3, 4], 1, 1, 0, Some [0, 0, 0, 0], 100, 101),
       (Some [1, 2, 3, 4], 1, 1, 1, Some [0, 0, 0, 0], 200, 202),
       (Some [1, 2, 3, 4], 1, 1, 9, Some [0, 0, 0, 0], 300, 302)])) = 2"
proof -
  let ?cs = "[(Some [1, 2, 3, 4], 1, 1, 0, Some [0, 0, 0, 0], 100, 101),
       (Some [1, 2, 3, 4], 1, 1, 1, Some [0, 0, 0, 0], 200, 202),
       (Some [1, 2, 3, 4], 1, 1, 9, Some [0, 0, 0, 0], 300, 302)] :: frame_call list"
  have 1: "\<forall>c \<in> set ?cs. call_valid c \<and> 0 \<le> sint (call_elapsed c)"
    by (simp add: call_valid_def call_elapsed_def)
  have 2: "length ?cs < 2 ^ 64" by simp
  have 3: "(\<Sum>c\<leftarrow>?cs. sint (call_elapsed c)) < 2 ^ 64"
    by (simp add: call_elapsed_def)
  show ?thesis
    using statistics_after_frames [OF 1 2 3, where cv = no_opencv and mem = junk_memory]
    by (simp add: call_elapsed_def printed_5_3)
qed

theorem statistics_average_counterexample:
  "statFrames (getStatistics (run_frames no_opencv junk_memory (snd (initialize no_opencv OpenCVProcessor_new))
      [(Some [1, 2, 3, 4], 1, 1, 0, Some [0, 0, 0, 0], 100, 101),
       (Some [1, 2, 3, 4], 1, 1, 0, Some [0, 0, 0, 0], 200, 201),
       (Some [1, 2, 3, 4], 1, 1, 0, Some [0, 0, 0, 0], 300, 302)])) = 3
   \<and> statAvgTime (getStatistics (run_frames no_opencv junk_memory (snd (initialize no_opencv OpenCVProcessor_new))
      [(Some [1, 2, 3, 4], 1, 1, 0, Some [0, 0, 0, 0], 100, 101),
       (Some [1, 2, 3, 4], 1, 1, 0, Some [0, 0, 0, 0], 200, 201),
       (Some [1, 2, 3, 4], 1, 1, 0, Some [0, 0, 0, 0], 300, 302)])) = 133 / 100
   \<and> spec_average (map (\<lambda>c. sint (call_elapsed c))
      [(Some [1, 2, 3, 4], 1, 1, 0, Some [0, 0, 0, 0], 100, 101),
       (Some [1, 2, 3, 4], 1, 1, 0, Some [0, 0, 0, 0], 200, 201),
       (Some [1, 2, 3, 4], 1, 1, 0, Some [0, 0, 0, 0], 300, 302)]) = 4 / 3"
proof -
  let ?cs = "[(Some [1, 2, 3, 4], 1, 1, 0, Some [0, 0, 0, 0], 100, 101),
       (Some [1, 2, 3, 4], 1, 1, 0, Some [0, 0, 0, 0], 200, 201),
       (Some [1, 2, 3, 4], 1, 1, 0, Some [0, 0, 0, 0], 300, 302)] :: frame_call list"
  let ?fin = "run_frames no_opencv junk_memory (snd (initialize no_opencv OpenCVProcessor_new)) ?cs"
  have 1: "\<forall>c \<in> set ?cs. call_valid c \<and> 0 \<le> sint (call_elapsed c)"
    by (simp add: call_valid_def call_elapsed_def)
  have 2: "length ?cs < 2 ^ 64" by simp
  have 3: "(\<Sum>c\<leftarrow>?cs. sint (call_elapsed c)) < 2 ^ 64"
    by (simp add: call_elapsed_def)
  note c = run_frames_unat_counters [OF 1 2 3, where cv = no_opencv and mem = junk_memory]
  have uf: "unat (mTotalFramesProcessed ?fin) = 3"
    by (rule trans [OF c(1)]) simp
  have ut: "unat (mTotalProcessingTimeMs ?fin) = 4"
    by (rule trans [OF c(2)]) (simp add: call_elapsed_def)
  have fr: "statFrames (getStatistics ?fin) = 3"
    by (simp only: getStatistics_frames uf)
  have av: "statAvgTime (getStatistics ?fin) = 133 / 100"
    by (subst getStatistics_average [OF uf ut]) (simp_all add: printed_4_3)
  have sp: "spec_average (map (\<lambda>c. sint (call_elapsed c)) ?cs) = 4 / 3"
    by (simp add: spec_average_def call_elapsed_def)
  show ?thesis using fr av sp by (intro conjI)
qed

end
